theory Spec2Isabelle
  imports Complex_Main "HOL-Library.Sublist"
begin

section \<open>JavaScript string primitives\<close>

text \<open>
  A JavaScript string is a sequence of UTF-16 code units. The model takes the code units
  below 256 (ASCII and Latin-1), one \<^typ>\<open>char\<close> each, so \<^const>\<open>length\<close> is the
  \<^verbatim>\<open>.length\<close> of the source string. Among these code units the white space of
  \<^verbatim>\<open>String.prototype.trim\<close> and of the regular expression class \<^verbatim>\<open>\s\<close> is TAB, LF,
  VT, FF, CR, SPACE and NBSP.
\<close>

definition js_isspace :: "char \<Rightarrow> bool" where
  "js_isspace c = (of_char c \<in> {9, 10, 11, 12, 13, 32, 160 :: nat})"

definition js_trim :: "string \<Rightarrow> string" where
  "js_trim s = rev (dropWhile js_isspace (rev (dropWhile js_isspace s)))"

text \<open>
  \<^verbatim>\<open>toLowerCase\<close> on these code units: the upper-case letters A-Z and the Latin-1
  capitals 0xC0-0xDE (0xD7, the multiplication sign, apart) move up by 32.
\<close>

definition js_lower_char :: "char \<Rightarrow> char" where
  "js_lower_char c =
     (let n = (of_char c :: nat) in
      if (65 \<le> n \<and> n \<le> 90) \<or> (192 \<le> n \<and> n \<le> 222 \<and> n \<noteq> 215)
      then char_of (n + 32) else c)"

definition js_toLowerCase :: "string \<Rightarrow> string" where
  "js_toLowerCase s = map js_lower_char s"

section \<open>Query normalisation (utils/normalize)\<close>

datatype queryType = Word | Sentence

record NormalizedQuery =
  normalized :: string
  type :: queryType

definition hasSpaces :: "string \<Rightarrow> bool" where
  "hasSpaces s = list_ex js_isspace s"

definition hasPunctuation :: "string \<Rightarrow> bool" where
  "hasPunctuation s = list_ex (\<lambda>c. c \<in> set ''.,!?;:'') s"

text \<open>The two \<^verbatim>\<open>throw new Error(...)\<close> of the source are the \<open>Inl\<close> results, with the message.\<close>

definition normalizeQuery :: "string \<Rightarrow> string + NormalizedQuery" where
  "normalizeQuery query =
     (let trimmed = js_trim query in
      if length trimmed > 200 then Inl ''Query exceeds maximum length of 200 characters''
      else if length trimmed = 0 then Inl ''Query cannot be empty''
      else
        let normalized = js_toLowerCase trimmed in
        Inr \<lparr> normalized = normalized,
              type = (if hasSpaces normalized \<or> hasPunctuation normalized then Sentence else Word) \<rparr>)"


text \<open>
  \<^verbatim>\<open>parts.join(sep)\<close>, \<^verbatim>\<open>s.includes(t)\<close>, \<^verbatim>\<open>s.startsWith(t)\<close> and \<^verbatim>\<open>s.endsWith(t)\<close>;
  the last three are \<^const>\<open>sublist\<close>, \<^const>\<open>prefix\<close> and \<^const>\<open>suffix\<close> with the
  arguments swapped.
\<close>

fun js_join :: "string \<Rightarrow> string list \<Rightarrow> string" where
  "js_join sep [] = []"
| "js_join sep [x] = x"
| "js_join sep (x # y # rest) = x @ sep @ js_join sep (y # rest)"

definition js_includes :: "string \<Rightarrow> string \<Rightarrow> bool" where
  "js_includes s t = sublist t s"

definition js_startsWith :: "string \<Rightarrow> string \<Rightarrow> bool" where
  "js_startsWith s t = prefix t s"

definition js_endsWith :: "string \<Rightarrow> string \<Rightarrow> bool" where
  "js_endsWith s t = suffix t s"

text \<open>
  \<^verbatim>\<open>s.split(/\s+/)\<close>: the fields between maximal runs of white space; a run at either end
  leaves an empty field there, and the empty string gives one empty field. The flag says
  that the scan is inside a run, the accumulator holds the current field reversed.
\<close>

fun js_split_ws_from :: "bool \<Rightarrow> string \<Rightarrow> string \<Rightarrow> string list" where
  "js_split_ws_from inRun acc [] = [rev acc]"
| "js_split_ws_from inRun acc (c # cs) =
     (if js_isspace c
      then (if inRun then js_split_ws_from True acc cs
            else rev acc # js_split_ws_from True [] cs)
      else js_split_ws_from False (c # acc) cs)"

definition js_split_ws :: "string \<Rightarrow> string list" where
  "js_split_ws s = js_split_ws_from False [] s"

text \<open>\<^verbatim>\<open>[...new Set(xs)]\<close>: the first occurrence of every element, in order.\<close>

fun js_unique_from :: "'a list \<Rightarrow> 'a list \<Rightarrow> 'a list" where
  "js_unique_from seen [] = []"
| "js_unique_from seen (x # xs) =
     (if x \<in> set seen then js_unique_from seen xs else x # js_unique_from (x # seen) xs)"

definition js_unique :: "'a list \<Rightarrow> 'a list" where
  "js_unique xs = js_unique_from [] xs"

section \<open>Word index (db/wordIndex)\<close>

record CaptionSpan =
  span_start :: real
  span_end :: real
  span_text :: string

record VideoResponse =
  vr_videoId :: string
  vr_videoUrl :: string
  vr_startTime :: real
  vr_endTime :: real
  vr_caption :: string
  vr_captions :: "CaptionSpan list"

text \<open>
  The table \<^verbatim>\<open>word_index\<close> has the word as its primary key and the examples as a JSON
  array: a map from the word to the list of examples.
\<close>

type_synonym word_index = "string \<rightharpoonup> VideoResponse list"

text \<open>
  The character class of \<^verbatim>\<open>extractWords\<close>. Its em dash and en dash are code units above
  255 and do not occur in the strings of this model.
\<close>

definition isWordPunctuation :: "char \<Rightarrow> bool" where
  "isWordPunctuation c = (c \<in> set (''.,!?;:'' @ [CHR 0x27, CHR 0x22] @ ''()[]{}-''))"

definition extractWords :: "string \<Rightarrow> string list" where
  "extractWords caption =
     (let words = filter (\<lambda>word. length word > 0)
                    (js_split_ws
                      (map (\<lambda>c. if isWordPunctuation c then CHR '' '' else c)
                        (js_toLowerCase caption)))
      in js_unique words)"

definition isDuplicate :: "VideoResponse list \<Rightarrow> VideoResponse \<Rightarrow> bool" where
  "isDuplicate videoExamples videoResponse =
     list_ex (\<lambda>example. vr_videoId example = vr_videoId videoResponse \<and>
                         vr_startTime example = vr_startTime videoResponse \<and>
                         vr_endTime example = vr_endTime videoResponse) videoExamples"

fun addVideoToWordIndex :: "word_index \<Rightarrow> string list \<Rightarrow> VideoResponse \<Rightarrow> word_index" where
  "addVideoToWordIndex db [] videoResponse = db"
| "addVideoToWordIndex db (word # words) videoResponse =
     (case db word of
        Some videoExamples \<Rightarrow>
          if isDuplicate videoExamples videoResponse
          then addVideoToWordIndex db words videoResponse
          else addVideoToWordIndex (db(word \<mapsto> videoExamples @ [videoResponse])) words videoResponse
      | None \<Rightarrow> addVideoToWordIndex (db(word \<mapsto> [videoResponse])) words videoResponse)"

definition findByWord :: "word_index \<Rightarrow> string \<Rightarrow> VideoResponse list option" where
  "findByWord db word = db (js_toLowerCase word)"

section \<open>Sentence boundary detection (services/sentenceDetector)\<close>

record CaptionSegment =
  seg_text :: string
  seg_start :: real
  seg_duration :: real

record SentenceBoundary =
  startTime :: real
  endTime :: real
  caption :: string

text \<open>\<^verbatim>\<open>/[.!?]$/.test(s)\<close>: the last character of \<open>s\<close> is a full stop, ! or ?.\<close>

definition endsSentence :: "string \<Rightarrow> bool" where
  "endsSentence s = (s \<noteq> [] \<and> last s \<in> set ''.!?'')"

text \<open>
  The backward loop \<^verbatim>\<open>for (i = matchIndex - 1; i >= 0; i--)\<close>. The last argument is \<open>i + 1\<close>,
  the second the current \<open>startIndex\<close>.
\<close>

fun scanBackward :: "CaptionSegment list \<Rightarrow> nat \<Rightarrow> nat \<Rightarrow> nat" where
  "scanBackward segments startIndex 0 = startIndex"
| "scanBackward segments startIndex (Suc i) =
     (if endsSentence (js_trim (seg_text (segments ! i))) then i + 1
      else scanBackward segments (if i = 0 then 0 else startIndex) i)"

text \<open>
  The forward loop \<^verbatim>\<open>for (i = matchIndex; i < segments.length; i++)\<close> over the segments from
  \<open>i\<close> on; the last argument is the current \<open>endIndex\<close>.
\<close>

fun scanForward :: "CaptionSegment list \<Rightarrow> nat \<Rightarrow> nat \<Rightarrow> nat" where
  "scanForward [] i endIndex = endIndex"
| "scanForward (segment # rest) i endIndex =
     (if endsSentence (js_trim (seg_text segment)) then i
      else scanForward rest (i + 1) i)"

datatype js_error = TypeError

text \<open>
  Reading \<^verbatim>\<open>segments[i].text\<close> outside the array throws a TypeError. For an integer
  \<open>matchIndex\<close> that happens exactly when it is not an index of the array: a negative one
  fails in the forward loop, one beyond the end in the backward loop or while the
  caption parts are collected.
\<close>

definition detectSentenceBoundary :: "CaptionSegment list \<Rightarrow> int \<Rightarrow> js_error + SentenceBoundary" where
  "detectSentenceBoundary segments matchIndex =
     (if matchIndex < 0 \<or> int (length segments) \<le> matchIndex then Inl TypeError
      else
        let m = nat matchIndex;
            startIndex = scanBackward segments m m;
            endIndex = scanForward (drop m segments) m m;
            captionParts = map seg_text (take (endIndex + 1 - startIndex) (drop startIndex segments));
            startSegment = segments ! startIndex;
            endSegment = segments ! endIndex
        in Inr \<lparr> startTime = seg_start startSegment,
                  endTime = seg_start endSegment + seg_duration endSegment + 2,
                  caption = js_trim (js_join '' '' captionParts) \<rparr>)"

section \<open>English gating (services/jobProcessor)\<close>

definition commonEnglishWords :: "string list" where
  "commonEnglishWords =
     [''the'', ''a'', ''an'', ''is'', ''are'', ''was'', ''were'', ''to'', ''of'', ''and'', ''in'',
      ''that'', ''have'', ''it'', ''for'', ''on'', ''with'', ''as'', ''this'', ''be'', ''at'']"

definition wordPresent :: "string \<Rightarrow> string \<Rightarrow> bool" where
  "wordPresent allText word =
     (js_includes allText ('' '' @ word @ '' '') \<or> js_startsWith allText (word @ '' '') \<or>
      js_endsWith allText ('' '' @ word))"

definition englishWordCount :: "string \<Rightarrow> nat" where
  "englishWordCount allText = length (filter (wordPresent allText) commonEnglishWords)"

text \<open>\<^verbatim>\<open>allText.match(/[^\x00-\x7F]/g)\<close>: the characters outside ASCII.\<close>

definition nonLatinChars :: "string \<Rightarrow> string" where
  "nonLatinChars allText = filter (\<lambda>c. (of_char c :: nat) > 127) allText"

text \<open>
  \<^verbatim>\<open>match\<close> returns \<^verbatim>\<open>null\<close> when nothing matches, and the ratio is then 0. The
  division is the double division of the source; for a quotient of two string lengths the
  comparison with 0.2 has the same outcome as over the reals.
\<close>

definition nonLatinRatio :: "string \<Rightarrow> real" where
  "nonLatinRatio allText =
     (if nonLatinChars allText = [] then 0
      else real (length (nonLatinChars allText)) / real (length allText))"

definition isEnglishTranscription :: "CaptionSegment list \<Rightarrow> bool" where
  "isEnglishTranscription captions =
     (if length captions = 0 then False
      else
        let allText = js_toLowerCase (js_join '' '' (map seg_text captions))
        in englishWordCount allText \<ge> 5 \<and> nonLatinRatio allText < 0.2)"

text \<open>
  The cue lists the detector is meant for: cues in the order of their start times and
  of their end times, as a caption file lists them.
\<close>

definition cuesOrdered :: "CaptionSegment list \<Rightarrow> bool" where
  "cuesOrdered segments =
     (sorted (map seg_start segments) \<and>
      sorted (map (\<lambda>c. seg_start c + seg_duration c) segments))"

text \<open>
  The gate as the specification words it, for comparison with \<^const>\<open>isEnglishTranscription\<close>:
  the occurrences of the function words are counted, every occurrence as an isolated
  token of the joined lower-case text, and the text is accepted when there are at least
  five of them and less than a fifth of its characters are outside ASCII.
\<close>

definition spec_functionWordOccurrences :: "string \<Rightarrow> nat" where
  "spec_functionWordOccurrences allText =
     length (filter (\<lambda>token. token \<in> set commonEnglishWords) (js_split_ws allText))"

definition spec_acceptsEnglish :: "CaptionSegment list \<Rightarrow> bool" where
  "spec_acceptsEnglish captions =
     (let allText = js_toLowerCase (js_join '' '' (map seg_text captions))
      in spec_functionWordOccurrences allText \<ge> 5 \<and>
         5 * length (nonLatinChars allText) < length allText)"

text \<open>
  The candidate loop of \<^verbatim>\<open>processJob\<close> (step 3). What the external collaborators return
  for a candidate video is the input: the elapsed time when the time-out is checked,
  whether the video is embeddable, and the captions read after download and
  transcription; \<open>None\<close> stands for a collaborator that throws, which the \<^verbatim>\<open>catch\<close> inside
  the loop turns into the next iteration. \<^verbatim>\<open>findMatchingSegment\<close> is a parameter of the
  model.
\<close>

type_synonym JobResult = VideoResponse

record Candidate =
  cand_videoId :: string
  cand_elapsedMs :: nat
  cand_embeddable :: "bool option"
  cand_captions :: "CaptionSegment list option"

datatype job_error = NoVideosFound | JobTimeout | NoEnglishVideoFound string nat

datatype job_outcome = JobCompleted JobResult | JobFailed job_error

definition JOB_TIMEOUT_MS :: nat where
  "JOB_TIMEOUT_MS = 15 * 60 * 1000"

definition filteredCaptions :: "CaptionSegment list \<Rightarrow> SentenceBoundary \<Rightarrow> CaptionSpan list" where
  "filteredCaptions captions boundary =
     map (\<lambda>c. \<lparr> span_start = seg_start c, span_end = seg_start c + seg_duration c,
                 span_text = seg_text c \<rparr>)
       (filter (\<lambda>c. seg_start c < endTime boundary \<and>
                     seg_start c + seg_duration c > startTime boundary) captions)"

text \<open>Steps 3e to 3g and the result of step 4, for the captions of one video.\<close>

definition processCaptions ::
  "(CaptionSegment list \<Rightarrow> string \<Rightarrow> queryType \<Rightarrow> int) \<Rightarrow> string \<Rightarrow> CaptionSegment list \<Rightarrow>
   string \<Rightarrow> queryType \<Rightarrow> JobResult option" where
  "processCaptions findMatchingSegment videoId captions normalizedQuery queryType =
     (if \<not> isEnglishTranscription captions then None
      else
        let matchIndex = findMatchingSegment captions normalizedQuery queryType in
        if matchIndex = - 1 then None
        else
          (case detectSentenceBoundary captions matchIndex of
             Inl err \<Rightarrow> None
           | Inr boundary \<Rightarrow>
               Some \<lparr> vr_videoId = videoId,
                      vr_videoUrl = ''https://www.youtube.com/watch?v='' @ videoId,
                      vr_startTime = startTime boundary,
                      vr_endTime = endTime boundary,
                      vr_caption = caption boundary,
                      vr_captions = filteredCaptions captions boundary \<rparr>))"

fun processVideos ::
  "(CaptionSegment list \<Rightarrow> string \<Rightarrow> queryType \<Rightarrow> int) \<Rightarrow> string \<Rightarrow> queryType \<Rightarrow> nat \<Rightarrow>
   Candidate list \<Rightarrow> job_outcome" where
  "processVideos findMatchingSegment normalizedQuery queryType tried [] =
     JobFailed (NoEnglishVideoFound normalizedQuery tried)"
| "processVideos findMatchingSegment normalizedQuery queryType tried (video # videos) =
     (if cand_elapsedMs video > JOB_TIMEOUT_MS then JobFailed JobTimeout
      else
        (case cand_embeddable video of
           None \<Rightarrow> processVideos findMatchingSegment normalizedQuery queryType tried videos
         | Some embeddable \<Rightarrow>
             if \<not> embeddable
             then processVideos findMatchingSegment normalizedQuery queryType tried videos
             else
               (case cand_captions video of
                  None \<Rightarrow> processVideos findMatchingSegment normalizedQuery queryType tried videos
                | Some captions \<Rightarrow>
                    (case processCaptions findMatchingSegment (cand_videoId video) captions
                            normalizedQuery queryType of
                       None \<Rightarrow> processVideos findMatchingSegment normalizedQuery queryType tried videos
                     | Some result \<Rightarrow> JobCompleted result))))"

section \<open>HTTP values\<close>

text \<open>
  The body of \<^verbatim>\<open>res.json(...)\<close> is a JSON value; the headers of a response are a map,
  since \<^verbatim>\<open>setHeader\<close> replaces a header of the same name.
\<close>

datatype json = JNull | JBool bool | JNum real | JStr string | JArr "json list"
  | JObj "(string \<times> json) list"

record HttpResponse =
  res_status :: nat
  res_headers :: "string \<rightharpoonup> string"
  res_body :: json

text \<open>\<^verbatim>\<open>n.toString()\<close> for a natural number.\<close>

definition decimalDigit :: "nat \<Rightarrow> char" where
  "decimalDigit d = ''0123456789'' ! d"

fun nat_toString :: "nat \<Rightarrow> string" where
  "nat_toString n =
     (let units = decimalDigit (n mod 10)
      in if 10 \<le> n then nat_toString (n div 10) @ [units] else [units])"

section \<open>Subscription status (services/revenueCat)\<close>

record SubscriptionStatus =
  isActive :: bool
  entitlementId :: "string option"
  expiresDate :: "int option"
  productId :: "string option"
  willRenew :: bool

text \<open>
  The part of the provider's answer that \<^verbatim>\<open>parseSubscriptionStatus\<close> reads. Dates are
  milliseconds since the epoch, \<open>None\<close> for \<^verbatim>\<open>null\<close>; the entitlements are listed in the
  order of \<^verbatim>\<open>Object.entries\<close>.
\<close>

record Entitlement =
  expires_date :: "int option"
  product_identifier :: string

record RevenueCatSubscriber =
  entitlements :: "(string \<times> Entitlement) list"
  subscriptions :: "string \<rightharpoonup> int option"

text \<open>
  The subscriptions map a product to its \<^verbatim>\<open>unsubscribe_detected_at\<close>. The entitlement id is
  \<^verbatim>\<open>process.env.REVENUECAT_ENTITLEMENT_ID || 'premium'\<close>, a parameter here.
\<close>

definition entitlementLive :: "Entitlement \<Rightarrow> int \<Rightarrow> bool" where
  "entitlementLive entitlement now =
     (case expires_date entitlement of None \<Rightarrow> True | Some expires \<Rightarrow> expires > now)"

fun firstLiveEntitlement ::
  "(string \<times> Entitlement) list \<Rightarrow> (string \<rightharpoonup> int option) \<Rightarrow> int \<Rightarrow> SubscriptionStatus" where
  "firstLiveEntitlement [] subs now =
     \<lparr> isActive = False, entitlementId = None, expiresDate = None, productId = None,
       willRenew = False \<rparr>"
| "firstLiveEntitlement ((entId, entitlement) # rest) subs now =
     (if entitlementLive entitlement now
      then \<lparr> isActive = True, entitlementId = Some entId,
             expiresDate = expires_date entitlement,
             productId = Some (product_identifier entitlement),
             willRenew = (case subs (product_identifier entitlement) of
                            None \<Rightarrow> True
                          | Some unsubscribeDetectedAt \<Rightarrow> unsubscribeDetectedAt = None) \<rparr>
      else firstLiveEntitlement rest subs now)"

definition parseSubscriptionStatus :: "string \<Rightarrow> RevenueCatSubscriber \<Rightarrow> int \<Rightarrow> SubscriptionStatus" where
  "parseSubscriptionStatus premiumEntitlementId data now =
     (case map_of (entitlements data) premiumEntitlementId of
        Some entitlement \<Rightarrow>
          if entitlementLive entitlement now
          then \<lparr> isActive = True, entitlementId = Some premiumEntitlementId,
                 expiresDate = expires_date entitlement,
                 productId = Some (product_identifier entitlement), willRenew = True \<rparr>
          else firstLiveEntitlement (entitlements data) (subscriptions data) now
      | None \<Rightarrow> firstLiveEntitlement (entitlements data) (subscriptions data) now)"

text \<open>
  What the call to the provider does: \<^verbatim>\<open>fetch\<close> or \<^verbatim>\<open>response.json()\<close> throws, the
  response is not \<^verbatim>\<open>ok\<close> (with its status), or the subscriber data arrive.
\<close>

datatype provider_reply = FetchThrows | NotOk nat | SubscriberData RevenueCatSubscriber

record CacheEntry =
  cached_status :: SubscriptionStatus
  cachedAt :: int

type_synonym subscriptionCache = "string \<rightharpoonup> CacheEntry"

definition CACHE_TTL_MS :: int where
  "CACHE_TTL_MS = 5 * 60 * 1000"

definition inactiveStatus :: SubscriptionStatus where
  "inactiveStatus = \<lparr> isActive = False, entitlementId = None, expiresDate = None,
                       productId = None, willRenew = False \<rparr>"

text \<open>
  The environment of \<^verbatim>\<open>checkSubscription\<close>: whether \<^verbatim>\<open>REVENUECAT_API_KEY\<close> is set, the
  entitlement id, the clock and the provider's reply, should the provider be asked. The
  function returns the status and the cache it leaves.
\<close>

record SubscriptionEnv =
  apiKeySet :: bool
  premiumEntitlementId :: string
  providerReply :: provider_reply

definition checkSubscription ::
  "SubscriptionEnv \<Rightarrow> int \<Rightarrow> subscriptionCache \<Rightarrow> string \<Rightarrow> bool \<Rightarrow>
   SubscriptionStatus \<times> subscriptionCache" where
  "checkSubscription env now cache appUserId forceRefresh =
     (if \<not> apiKeySet env then (inactiveStatus, cache)
      else
        let hit = (if forceRefresh then None
                   else (case cache appUserId of
                           Some cached \<Rightarrow>
                             if now - cachedAt cached < CACHE_TTL_MS then Some (cached_status cached)
                             else None
                         | None \<Rightarrow> None));
            cache1 = (if forceRefresh then cache(appUserId := None) else cache)
        in (case hit of
              Some status \<Rightarrow> (status, cache)
            | None \<Rightarrow>
                (case providerReply env of
                   FetchThrows \<Rightarrow> (inactiveStatus, cache1)
                 | NotOk code \<Rightarrow> (inactiveStatus, cache1)
                 | SubscriberData data \<Rightarrow>
                     let status = parseSubscriptionStatus (premiumEntitlementId env) data now in
                     if isActive status
                     then (status, cache1(appUserId \<mapsto> \<lparr> cached_status = status, cachedAt = now \<rparr>))
                     else (status, cache1(appUserId := None)))))"

section \<open>Free-tier quota (db/aiPaywall)\<close>

datatype requests_limit = Limit nat | Infinity

record PaywallCheckResult =
  allowed :: bool
  requestsUsed :: nat
  requestsLimit :: requests_limit
  retryAfterSeconds :: "int option"
  hasSubscription :: bool

text \<open>
  The defaults of \<^verbatim>\<open>AI_FREE_REQUESTS_LIMIT\<close> and \<^verbatim>\<open>AI_FREE_REQUESTS_WINDOW_MINUTES\<close>.
\<close>

definition FREE_REQUESTS_LIMIT :: nat where
  "FREE_REQUESTS_LIMIT = 3"

definition FREE_REQUESTS_WINDOW_MINUTES :: int where
  "FREE_REQUESTS_WINDOW_MINUTES = 240"

definition windowDurationMs :: int where
  "windowDurationMs = FREE_REQUESTS_WINDOW_MINUTES * 60 * 1000"

text \<open>
  A row of \<^verbatim>\<open>ai_paywall_usage\<close>; the table has one row per user id. Times are
  milliseconds; \<^verbatim>\<open>CURRENT_TIMESTAMP\<close> and \<^verbatim>\<open>Date.now()\<close> read the same clock, passed as
  \<open>now\<close>. A query of the store throws when the store refuses its parameter, a user id
  that is no text to it, or cannot be reached; whether the queries of a call throw is
  given with the call. The one query of \<^verbatim>\<open>checkAiPaywall\<close> reads, and of the two queries of
  \<^verbatim>\<open>incrementAiUsage\<close> the second writes, so a call that throws leaves the table as it
  was.
\<close>

record UsageRecord =
  requestCount :: nat
  windowStart :: int

type_synonym usageTable = "string \<rightharpoonup> UsageRecord"

text \<open>The result of \<^verbatim>\<open>checkAiPaywall\<close>, \<open>None\<close> when its query throws; a subscriber is answered
  before the query.\<close>

definition checkAiPaywall ::
  "bool \<Rightarrow> usageTable \<Rightarrow> int \<Rightarrow> string \<Rightarrow> bool \<Rightarrow> PaywallCheckResult option" where
  "checkAiPaywall queryThrows db currentTime userId hasSub =
     (if hasSub
      then Some \<lparr> allowed = True, requestsUsed = 0, requestsLimit = Infinity,
                  retryAfterSeconds = None, hasSubscription = True \<rparr>
      else if queryThrows then None
      else
        (case db userId of
           None \<Rightarrow> Some \<lparr> allowed = True, requestsUsed = 0,
                          requestsLimit = Limit FREE_REQUESTS_LIMIT,
                          retryAfterSeconds = None, hasSubscription = False \<rparr>
         | Some record \<Rightarrow>
             let windowEndTime = windowStart record + windowDurationMs in
             if currentTime \<ge> windowEndTime
             then Some \<lparr> allowed = True, requestsUsed = 0,
                         requestsLimit = Limit FREE_REQUESTS_LIMIT,
                         retryAfterSeconds = None, hasSubscription = False \<rparr>
             else if requestCount record \<ge> FREE_REQUESTS_LIMIT
             then Some \<lparr> allowed = False, requestsUsed = requestCount record,
                         requestsLimit = Limit FREE_REQUESTS_LIMIT,
                         retryAfterSeconds =
                           Some \<lceil>real_of_int (windowEndTime - currentTime) / 1000\<rceil>,
                         hasSubscription = False \<rparr>
             else Some \<lparr> allowed = True, requestsUsed = requestCount record,
                         requestsLimit = Limit FREE_REQUESTS_LIMIT,
                         retryAfterSeconds = None, hasSubscription = False \<rparr>))"

text \<open>The table \<^verbatim>\<open>incrementAiUsage\<close> leaves, \<open>None\<close> when one of its queries throws.\<close>

definition incrementAiUsage :: "bool \<Rightarrow> usageTable \<Rightarrow> int \<Rightarrow> string \<Rightarrow> usageTable option" where
  "incrementAiUsage queryThrows db currentTime userId =
     (if queryThrows then None
      else
        (case db userId of
           None \<Rightarrow> Some (db(userId \<mapsto> \<lparr> requestCount = 1, windowStart = currentTime \<rparr>))
         | Some record \<Rightarrow>
             if currentTime \<ge> windowStart record + windowDurationMs
             then Some (db(userId \<mapsto> \<lparr> requestCount = 1, windowStart = currentTime \<rparr>))
             else Some (db(userId \<mapsto> record\<lparr> requestCount := requestCount record + 1 \<rparr>))))"

section \<open>Paywall middleware (middleware/paywall)\<close>

text \<open>
  What the middleware reads of a request: \<^verbatim>\<open>req.body.userId\<close> and the headers
  \<^verbatim>\<open>x-user-id\<close> and \<^verbatim>\<open>x-refresh-subscription\<close>, \<open>None\<close> when absent. A value is truthy
  when it is present and not the empty string.
\<close>

record PaywallRequest =
  body_userId :: "string option"
  header_x_user_id :: "string option"
  header_x_refresh_subscription :: "string option"

definition js_truthy :: "string option \<Rightarrow> bool" where
  "js_truthy v = (case v of None \<Rightarrow> False | Some s \<Rightarrow> s \<noteq> [])"

definition js_or :: "string option \<Rightarrow> string option \<Rightarrow> string option" where
  "js_or a b = (if js_truthy a then a else b)"

definition int_toString :: "int \<Rightarrow> string" where
  "int_toString i = (if 0 \<le> i then nat_toString (nat i) else CHR ''-'' # nat_toString (nat (- i)))"

definition string_of_bool :: "bool \<Rightarrow> string" where
  "string_of_bool b = (if b then ''true'' else ''false'')"

text \<open>\<^verbatim>\<open>formatDuration\<close>, called with a positive number of seconds.\<close>

definition formatDuration :: "int \<Rightarrow> string" where
  "formatDuration seconds =
     (let hours = seconds div 3600;
          minutes = (seconds mod 3600) div 60
      in if hours > 0
         then (if minutes > 0 then int_toString hours @ ''h '' @ int_toString minutes @ ''m''
               else int_toString hours @ ''h'')
         else if minutes > 0 then int_toString minutes @ ''m''
         else int_toString seconds @ ''s'')"

text \<open>
  The state the middleware works on, the usage table and the subscription cache, and
  its two ways out: a response of its own, or \<^verbatim>\<open>next()\<close> with the headers set so far
  and the two values it attaches to the request, which it attaches last, so that
  \<^verbatim>\<open>next()\<close> from its \<^verbatim>\<open>catch\<close> comes without them.
\<close>

record ServerState =
  usage :: usageTable
  subCache :: subscriptionCache

datatype mw_result =
    Respond HttpResponse
  | Next "string \<rightharpoonup> string" "(SubscriptionStatus \<times> PaywallCheckResult) option"

text \<open>Whether the queries of the two calls of the store throw, for one request.\<close>

record StoreFaults =
  checkThrows :: bool
  incrementThrows :: bool

text \<open>
  The three clock readings are those of \<^verbatim>\<open>checkSubscription\<close>, \<^verbatim>\<open>checkAiPaywall\<close> and
  \<^verbatim>\<open>incrementAiUsage\<close>. \<^verbatim>\<open>checkSubscription\<close> catches its own errors. When a call of the
  store throws, the \<^verbatim>\<open>catch\<close> of the middleware finds no response sent and calls
  \<^verbatim>\<open>next()\<close>: with no header when it was \<^verbatim>\<open>checkAiPaywall\<close>, with the three headers
  of the check when it was \<^verbatim>\<open>incrementAiUsage\<close>.
\<close>

definition aiPaywallMiddleware ::
  "SubscriptionEnv \<Rightarrow> StoreFaults \<Rightarrow> int \<Rightarrow> int \<Rightarrow> int \<Rightarrow> ServerState \<Rightarrow>
   'a PaywallRequest_scheme \<Rightarrow> mw_result \<times> ServerState" where
  "aiPaywallMiddleware env faults tSub tCheck tInc st req =
     (case js_or (body_userId req) (header_x_user_id req) of
        None \<Rightarrow>
          (Respond \<lparr> res_status = 401, res_headers = Map.empty,
                     res_body = JObj [(''error'', JStr ''User identification required''),
                                      (''code'', JStr ''USER_ID_REQUIRED''),
                                      (''message'', JStr ''Please provide userId in request body or x-user-id header'')] \<rparr>,
           st)
      | Some userId \<Rightarrow>
          if userId = []
          then
            (Respond \<lparr> res_status = 401, res_headers = Map.empty,
                       res_body = JObj [(''error'', JStr ''User identification required''),
                                        (''code'', JStr ''USER_ID_REQUIRED''),
                                        (''message'', JStr ''Please provide userId in request body or x-user-id header'')] \<rparr>,
             st)
          else
            let forceRefresh = (header_x_refresh_subscription req = Some ''true'');
                (subscriptionStatus, cache') =
                   checkSubscription env tSub (subCache st) userId forceRefresh
            in
            (case checkAiPaywall (checkThrows faults) (usage st) tCheck userId
                    (isActive subscriptionStatus) of
               None \<Rightarrow> (Next Map.empty None, st\<lparr> subCache := cache' \<rparr>)
             | Some paywallResult \<Rightarrow>
            let headers = [''X-Paywall-Requests-Used'' \<mapsto> nat_toString (requestsUsed paywallResult),
                           ''X-Paywall-Requests-Limit'' \<mapsto>
                              (case requestsLimit paywallResult of
                                 Infinity \<Rightarrow> ''unlimited'' | Limit n \<Rightarrow> nat_toString n),
                           ''X-Paywall-Has-Subscription'' \<mapsto> string_of_bool (isActive subscriptionStatus)]
            in
              if \<not> allowed paywallResult
              then
                let retryAfter = (case retryAfterSeconds paywallResult of
                                    None \<Rightarrow> 14400
                                  | Some seconds \<Rightarrow> if seconds = 0 then 14400 else seconds)
                in (Respond \<lparr> res_status = 403,
                       res_headers = headers(''Retry-After'' \<mapsto> int_toString retryAfter),
                       res_body = JObj [(''error'', JStr ''Free tier limit exceeded''),
                                        (''code'', JStr ''PAYWALL_LIMIT_EXCEEDED''),
                                        (''message'', JStr ''You have used all your free AI analysis requests. Upgrade to premium for unlimited access.''),
                                        (''requestsUsed'', JNum (real (requestsUsed paywallResult))),
                                        (''requestsLimit'',
                                           (case requestsLimit paywallResult of
                                              Infinity \<Rightarrow> JNull | Limit n \<Rightarrow> JNum (real n))),
                                        (''retryAfterSeconds'', JNum (real_of_int retryAfter)),
                                        (''retryAfterFormatted'', JStr (formatDuration retryAfter))] \<rparr>,
                    st\<lparr> subCache := cache' \<rparr>)
              else if \<not> isActive subscriptionStatus
              then
                (case incrementAiUsage (incrementThrows faults) (usage st) tInc userId of
                   None \<Rightarrow> (Next headers None, st\<lparr> subCache := cache' \<rparr>)
                 | Some usage' \<Rightarrow>
                     (Next (headers(''X-Paywall-Requests-Used'' \<mapsto>
                                nat_toString (requestsUsed paywallResult + 1)))
                           (Some (subscriptionStatus, paywallResult)),
                      st\<lparr> usage := usage', subCache := cache' \<rparr>))
              else (Next headers (Some (subscriptionStatus, paywallResult)),
                    st\<lparr> subCache := cache' \<rparr>)))"

section \<open>The route POST /analyze/stream (routes/analyzeStream)\<close>

text \<open>
  A field of the JSON body as the handler tests it: falsy and not a string (absent,
  \<^verbatim>\<open>null\<close>, \<^verbatim>\<open>0\<close>, \<^verbatim>\<open>false\<close>), truthy and not a string, or a string.
\<close>

datatype body_field = Falsy | NonString | Str string

record AnalyzeStreamRequest = PaywallRequest +
  sentence :: body_field
  targetWord :: body_field
  targetLanguage :: body_field
  nativeLanguage :: body_field
  contextBefore :: "string option"
  contextAfter :: "string option"

definition VALID_LANGUAGE_CODES :: "string list" where
  "VALID_LANGUAGE_CODES =
     [''en'', ''es'', ''fr'', ''de'', ''it'', ''pt'', ''ru'', ''ja'', ''ko'', ''zh'', ''zh-cn'',
      ''zh-tw'', ''zh-hk'', ''ar'', ''hi'', ''nl'', ''pl'', ''sv'', ''tr'', ''vi'', ''th'', ''id'',
      ''cs'', ''uk'', ''ro'', ''el'', ''he'', ''da'', ''fi'', ''no'', ''sk'', ''bg'', ''hr'']"

definition js_not :: "body_field \<Rightarrow> bool" where
  "js_not f = (case f of Falsy \<Rightarrow> True | NonString \<Rightarrow> False | Str s \<Rightarrow> s = [])"

record StreamParams =
  sp_sentence :: string
  sp_targetWord :: string
  sp_targetLanguage :: string
  sp_nativeLanguage :: string
  sp_contextBefore :: "string option"
  sp_contextAfter :: "string option"

text \<open>
  The validations of the handler, in their order: the message of the first one that fails,
  or the parameters of the stream when all pass.
\<close>

definition validateAnalyzeStream :: "'a AnalyzeStreamRequest_scheme \<Rightarrow> string + StreamParams" where
  "validateAnalyzeStream req =
     (if js_not (sentence req) then Inl ''sentence is required''
      else if js_not (targetWord req) then Inl ''targetWord is required''
      else if js_not (targetLanguage req) then Inl ''targetLanguage is required''
      else if js_not (nativeLanguage req) then Inl ''nativeLanguage is required''
      else
        (case sentence req of Str s \<Rightarrow>
          (case targetWord req of Str w \<Rightarrow>
            (case targetLanguage req of Str tlang \<Rightarrow>
              (case nativeLanguage req of Str nlang \<Rightarrow>
                 if length (js_trim s) > 1000
                 then Inl ''sentence exceeds maximum length of 1000 characters''
                 else if length (js_trim w) > 100
                 then Inl ''targetWord exceeds maximum length of 100 characters''
                 else if (case contextBefore req of Some c \<Rightarrow> length c > 500 | None \<Rightarrow> False)
                 then Inl ''contextBefore exceeds maximum length of 500 characters''
                 else if (case contextAfter req of Some c \<Rightarrow> length c > 500 | None \<Rightarrow> False)
                 then Inl ''contextAfter exceeds maximum length of 500 characters''
                 else if length (js_trim s) = 0 then Inl ''sentence cannot be empty''
                 else if length (js_trim w) = 0 then Inl ''targetWord cannot be empty''
                 else if js_toLowerCase tlang \<notin> set VALID_LANGUAGE_CODES
                 then Inl (''Invalid targetLanguage. Must be one of: '' @ js_join '', '' VALID_LANGUAGE_CODES)
                 else if js_toLowerCase nlang \<notin> set VALID_LANGUAGE_CODES
                 then Inl (''Invalid nativeLanguage. Must be one of: '' @ js_join '', '' VALID_LANGUAGE_CODES)
                 else Inr \<lparr> sp_sentence = js_trim s, sp_targetWord = js_trim w,
                            sp_targetLanguage = js_toLowerCase tlang,
                            sp_nativeLanguage = js_toLowerCase nlang,
                            sp_contextBefore = map_option js_trim (contextBefore req),
                            sp_contextAfter = map_option js_trim (contextAfter req) \<rparr>
               | _ \<Rightarrow> Inl ''nativeLanguage must be a string'')
             | _ \<Rightarrow> Inl ''targetLanguage must be a string'')
           | _ \<Rightarrow> Inl ''targetWord must be a string'')
         | _ \<Rightarrow> Inl ''sentence must be a string''))"

text \<open>
  The route runs the middleware and, on \<^verbatim>\<open>next()\<close>, the handler. The handler answers a
  request that fails validation with status 400; the streaming that follows a valid
  request is the registry's part, and the route's result then names the parameters.
\<close>

datatype route_result = Replied HttpResponse | StreamStarted "string \<rightharpoonup> string" StreamParams

definition analyzeStreamRoute ::
  "SubscriptionEnv \<Rightarrow> StoreFaults \<Rightarrow> int \<Rightarrow> int \<Rightarrow> int \<Rightarrow> ServerState \<Rightarrow>
   'a AnalyzeStreamRequest_scheme \<Rightarrow> route_result \<times> ServerState" where
  "analyzeStreamRoute env faults tSub tCheck tInc st req =
     (case aiPaywallMiddleware env faults tSub tCheck tInc st req of
        (Respond response, st') \<Rightarrow> (Replied response, st')
      | (Next headers attached, st') \<Rightarrow>
          (case validateAnalyzeStream req of
             Inl message \<Rightarrow>
               (Replied \<lparr> res_status = 400, res_headers = headers,
                          res_body = JObj [(''error'', JStr message)] \<rparr>, st')
           | Inr params \<Rightarrow> (StreamStarted headers params, st')))"

text \<open>A member of a JSON object, and the requests a usage row counts in the window that is
  current at a given time: none when there is no row or its window has expired.\<close>

definition json_field :: "json \<Rightarrow> string \<Rightarrow> json option" where
  "json_field j name = (case j of JObj members \<Rightarrow> map_of members name | _ \<Rightarrow> None)"

definition requestsInWindow :: "usageTable \<Rightarrow> int \<Rightarrow> string \<Rightarrow> nat" where
  "requestsInWindow db currentTime userId =
     (case db userId of
        None \<Rightarrow> 0
      | Some record \<Rightarrow>
          if currentTime \<ge> windowStart record + 240 * 60 * 1000 then 0 else requestCount record)"

section \<open>The route POST /search (routes/youtubeSearch)\<close>

text \<open>A row of \<^verbatim>\<open>video_examples\<close>, the Result Store; \<^verbatim>\<open>hash\<close> is unique, so the store is a
  map from the hash to its row.\<close>

record VideoExample =
  ve_id :: string
  ve_hash :: string
  ve_query :: string
  ve_videoId :: string
  ve_startTime :: real
  ve_endTime :: real
  ve_caption :: string
  ve_captions :: "CaptionSpan list"
  ve_createdAt :: int

type_synonym resultStore = "string \<rightharpoonup> VideoExample"

definition findByHash :: "resultStore \<Rightarrow> string \<Rightarrow> VideoExample option" where
  "findByHash store hash = store hash"

datatype JobStatus = queued | searching | downloading | transcribing | completed | failed

record Job =
  job_id :: string
  job_hash :: string
  job_query :: string
  job_normalizedQuery :: string
  job_queryType :: queryType
  job_status :: JobStatus
  job_currentVideoId :: "string option"
  job_result :: "JobResult option"
  job_error :: "string option"

type_synonym jobStore = "Job list"

text \<open>
  The table \<^verbatim>\<open>job_queue\<close> of \<^verbatim>\<open>db/jobQueue\<close>, its rows in the order they were inserted.
  The column \<^verbatim>\<open>id\<close> is a \<^verbatim>\<open>UUID PRIMARY KEY\<close> and \<^verbatim>\<open>hash\<close> is \<^verbatim>\<open>UNIQUE\<close>; the database
  compares the \<^verbatim>\<open>id\<close> of a row with the uuid it reads from the parameter of the query, and
  a query throws when the database refuses a parameter or a constraint. What the
  database does there is not in the sources and is a parameter: the uuid it reads from
  a text, printed the way it prints the \<^verbatim>\<open>id\<close> of a row, or \<open>None\<close> when the text is no uuid
  to it; the texts it takes for a \<^verbatim>\<open>TEXT\<close> column; and the message of the error it throws.
  A hash is a digest, a text the database takes.
\<close>

datatype store_fault = InvalidUuid string | InvalidText string | DuplicateKey string

record Database =
  readUuid :: "string \<Rightarrow> string option"
  acceptsText :: "string \<Rightarrow> bool"
  faultMessage :: "store_fault \<Rightarrow> string"

text \<open>The two look-ups return the first row of their \<^verbatim>\<open>SELECT\<close>, or \<^verbatim>\<open>null\<close>; the one by id
  throws on a text that is no uuid.\<close>

definition findJobByHash :: "jobStore \<Rightarrow> string \<Rightarrow> Job option" where
  "findJobByHash jobs hash = find (\<lambda>job. job_hash job = hash) jobs"

definition findJobById :: "Database \<Rightarrow> jobStore \<Rightarrow> string \<Rightarrow> string + Job option" where
  "findJobById db jobs jobId =
     (case readUuid db jobId of
        None \<Rightarrow> Inl (faultMessage db (InvalidUuid jobId))
      | Some uuid \<Rightarrow> Inr (find (\<lambda>job. job_id job = uuid) jobs))"

text \<open>
  \<^verbatim>\<open>createJob\<close> inserts a row with status \<^verbatim>\<open>queued\<close> and returns it. \<open>newId\<close> is the uuid
  that \<^verbatim>\<open>uuidv4()\<close> returns. The \<^verbatim>\<open>INSERT\<close> throws when the database refuses one of the
  texts, or when a row has the id or the hash already.
\<close>

definition createJob ::
  "Database \<Rightarrow> jobStore \<Rightarrow> string \<Rightarrow> string \<Rightarrow> string \<Rightarrow> string \<Rightarrow> queryType \<Rightarrow>
   string + (Job \<times> jobStore)" where
  "createJob db jobs newId hash query normalizedQuery queryType =
     (if \<not> acceptsText db query then Inl (faultMessage db (InvalidText query))
      else if \<not> acceptsText db normalizedQuery
      then Inl (faultMessage db (InvalidText normalizedQuery))
      else if find (\<lambda>job. job_id job = newId) jobs \<noteq> None
      then Inl (faultMessage db (DuplicateKey ''job_queue_pkey''))
      else if find (\<lambda>job. job_hash job = hash) jobs \<noteq> None
      then Inl (faultMessage db (DuplicateKey ''job_queue_hash_key''))
      else
        let job = \<lparr> job_id = newId, job_hash = hash, job_query = query,
                    job_normalizedQuery = normalizedQuery, job_queryType = queryType,
                    job_status = queued, job_currentVideoId = None, job_result = None,
                    job_error = None \<rparr>
        in Inr (job, jobs @ [job]))"

text \<open>
  A database for the examples: it reads as a uuid the texts of 32 hexadecimal digits in
  groups of 8, 4, 4, 4 and 12 with a hyphen between the groups and prints them in lower
  case, it takes the texts without the character of code 0, and its messages are those
  of PostgreSQL. PostgreSQL reads some further texts as uuids.
\<close>

definition hexDigit :: "char \<Rightarrow> bool" where
  "hexDigit c = (c \<in> set ''0123456789abcdefABCDEF'')"

definition uuidText :: "string \<Rightarrow> bool" where
  "uuidText s =
     (length s = 36 \<and>
      list_all (\<lambda>i. if i \<in> {8, 13, 18, 23} then s ! i = CHR ''-'' else hexDigit (s ! i))
        [0..<36])"

definition exampleDatabase :: Database where
  "exampleDatabase =
     \<lparr> readUuid = (\<lambda>s. if uuidText s then Some (js_toLowerCase s) else None),
       acceptsText = (\<lambda>s. CHR 0x00 \<notin> set s),
       faultMessage = (\<lambda>fault. case fault of
            InvalidUuid s \<Rightarrow>
              ''invalid input syntax for type uuid: '' @ [CHR 0x22] @ s @ [CHR 0x22]
          | InvalidText s \<Rightarrow>
              ''invalid byte sequence for encoding '' @ [CHR 0x22] @ ''UTF8'' @ [CHR 0x22]
                @ '': 0x00''
          | DuplicateKey name \<Rightarrow>
              ''duplicate key value violates unique constraint '' @ [CHR 0x22] @ name
                @ [CHR 0x22]) \<rparr>"

record SearchRequest =
  req_query :: "string option"
  req_jobId :: "string option"

definition captionSpanJson :: "CaptionSpan \<Rightarrow> json" where
  "captionSpanJson c =
     JObj [(''start'', JNum (span_start c)), (''end'', JNum (span_end c)),
           (''text'', JStr (span_text c))]"

text \<open>The members that \<^verbatim>\<open>...job.result\<close> spreads into a response.\<close>

definition jobResultMembers :: "JobResult \<Rightarrow> (string \<times> json) list" where
  "jobResultMembers result =
     [(''videoId'', JStr (vr_videoId result)), (''videoUrl'', JStr (vr_videoUrl result)),
      (''startTime'', JNum (vr_startTime result)), (''endTime'', JNum (vr_endTime result)),
      (''caption'', JStr (vr_caption result)),
      (''captions'', JArr (map captionSpanJson (vr_captions result)))]"

definition statusName :: "JobStatus \<Rightarrow> string" where
  "statusName s = (case s of queued \<Rightarrow> ''queued'' | searching \<Rightarrow> ''searching''
     | downloading \<Rightarrow> ''downloading'' | transcribing \<Rightarrow> ''transcribing''
     | completed \<Rightarrow> ''completed'' | failed \<Rightarrow> ''failed'')"

text \<open>A column that may be \<^verbatim>\<open>NULL\<close> comes as \<^verbatim>\<open>null\<close> in a row and stays a member of the
  response.\<close>

definition nullable :: "string option \<Rightarrow> json" where
  "nullable v = (case v of None \<Rightarrow> JNull | Some s \<Rightarrow> JStr s)"

definition getInProgressResponse :: "string \<Rightarrow> string \<Rightarrow> JobStatus \<Rightarrow> string option \<Rightarrow> json" where
  "getInProgressResponse jobId query status currentVideoId =
     (case status of
        queued \<Rightarrow> JObj [(''status'', JStr ''queued''), (''jobId'', JStr jobId), (''query'', JStr query),
                        (''message'', JStr ''Your word is queued and waiting to be processed'')]
      | searching \<Rightarrow> JObj [(''status'', JStr ''searching''), (''jobId'', JStr jobId),
                           (''query'', JStr query),
                           (''message'', JStr ''Searching for videos that contain your word'')]
      | downloading \<Rightarrow> JObj ([(''status'', JStr ''downloading''), (''jobId'', JStr jobId),
                              (''query'', JStr query),
                              (''message'', JStr ''Found a video! Downloading audio for transcription'')]
                             @ [(''currentVideoId'', nullable currentVideoId)])
      | transcribing \<Rightarrow> JObj ([(''status'', JStr ''transcribing''), (''jobId'', JStr jobId),
                               (''query'', JStr query),
                               (''message'', JStr ''Transcribing video audio to find your word'')]
                              @ [(''currentVideoId'', nullable currentVideoId)])
      | _ \<Rightarrow> JObj [(''status'', JStr ''queued''), (''jobId'', JStr jobId), (''query'', JStr query),
                   (''message'', JStr ''Processing your request'')])"

definition jsonResponse :: "nat \<Rightarrow> json \<Rightarrow> HttpResponse" where
  "jsonResponse status body = \<lparr> res_status = status, res_headers = Map.empty, res_body = body \<rparr>"

text \<open>The answer for a job that was found, by id or by hash.\<close>

definition jobResponse :: "Job \<Rightarrow> HttpResponse" where
  "jobResponse job =
     (if job_status job = completed \<and> job_result job \<noteq> None
      then jsonResponse 200
             (JObj ([(''status'', JStr ''completed''), (''jobId'', JStr (job_id job)),
                     (''query'', JStr (job_normalizedQuery job))]
                    @ (case job_result job of Some result \<Rightarrow> jobResultMembers result | None \<Rightarrow> [])))
      else if job_status job = failed
      then jsonResponse 200
             (JObj [(''status'', JStr ''failed''), (''jobId'', JStr (job_id job)),
                    (''query'', JStr (job_normalizedQuery job)),
                    (''error'', JStr (case job_error job of
                                       None \<Rightarrow> ''Job processing failed''
                                     | Some e \<Rightarrow> if e = [] then ''Job processing failed'' else e))])
      else jsonResponse 200
             (getInProgressResponse (job_id job) (job_normalizedQuery job) (job_status job)
                (job_currentVideoId job)))"

text \<open>The answer of the handler's \<^verbatim>\<open>catch\<close> to an error with the given message.\<close>

definition errorResponse :: "string \<Rightarrow> HttpResponse" where
  "errorResponse message =
     jsonResponse 500
       (JObj [(''error'', JStr (if message = [] then ''Internal server error'' else message))])"

text \<open>
  The handler. \<^verbatim>\<open>generateHash\<close> of \<^verbatim>\<open>utils/hash\<close>, which is not among the sources, the
  database and the id that \<^verbatim>\<open>createJob\<close> gives a new job are parameters. The handler
  returns its response and the Job Store it leaves; it never writes to the Result Store.
\<close>

definition searchRoute ::
  "(string \<Rightarrow> string) \<Rightarrow> Database \<Rightarrow> string \<Rightarrow> resultStore \<Rightarrow> jobStore \<Rightarrow> SearchRequest \<Rightarrow>
   HttpResponse \<times> jobStore" where
  "searchRoute generateHash db newId store jobs req =
     (case req_query req of
        None \<Rightarrow> (jsonResponse 400 (JObj [(''error'', JStr ''Query is required'')]), jobs)
      | Some query \<Rightarrow>
     if query = []
     then (jsonResponse 400 (JObj [(''error'', JStr ''Query is required'')]), jobs)
     else if js_truthy (req_jobId req)
     then
       (case findJobById db jobs (case req_jobId req of Some jobId \<Rightarrow> jobId | None \<Rightarrow> []) of
          Inl message \<Rightarrow> (errorResponse message, jobs)
        | Inr None \<Rightarrow> (jsonResponse 404 (JObj [(''error'', JStr ''Job not found'')]), jobs)
        | Inr (Some job) \<Rightarrow> (jobResponse job, jobs))
     else
       (case normalizeQuery query of
          Inl message \<Rightarrow> (jsonResponse 400 (JObj [(''error'', JStr message)]), jobs)
        | Inr normalizedData \<Rightarrow>
            let hash = generateHash (normalized normalizedData) in
            (case findByHash store hash of
               Some cachedResult \<Rightarrow>
                 (jsonResponse 200
                    (JObj [(''status'', JStr ''completed''), (''jobId'', JStr hash),
                           (''query'', JStr (normalized normalizedData)),
                           (''videoId'', JStr (ve_videoId cachedResult)),
                           (''videoUrl'', JStr (''https://www.youtube.com/watch?v='' @ ve_videoId cachedResult)),
                           (''startTime'', JNum (ve_startTime cachedResult)),
                           (''endTime'', JNum (ve_endTime cachedResult)),
                           (''caption'', JStr (ve_caption cachedResult)),
                           (''captions'', JArr (map captionSpanJson (ve_captions cachedResult)))]),
                  jobs)
             | None \<Rightarrow>
                 (case findJobByHash jobs hash of
                    Some existingJob \<Rightarrow> (jobResponse existingJob, jobs)
                  | None \<Rightarrow>
                      (case createJob db jobs newId hash query
                              (normalized normalizedData) (type normalizedData) of
                         Inl message \<Rightarrow> (errorResponse message, jobs)
                       | Inr (newJob, jobs') \<Rightarrow>
                           (jsonResponse 200
                              (JObj [(''status'', JStr ''queued''), (''jobId'', JStr (job_id newJob)),
                                     (''query'', JStr (normalized normalizedData)),
                                     (''message'', JStr ''Your word has been placed in the queue to find a video'')]),
                            jobs'))))))"

section \<open>Stream manager (services/streamManager)\<close>

text \<open>
  The \<^verbatim>\<open>Response\<close> of a subscriber as the manager uses it: the server-sent frames written
  so far, \<^verbatim>\<open>writableEnded\<close>, and whether a \<^verbatim>\<open>write\<close> on it throws. A write on an ended
  response sends nothing.
\<close>

datatype sse_frame = ChunkFrame string | DoneFrame string | ErrorFrame string

record Connection =
  frames :: "sse_frame list"
  writableEnded :: bool
  writeThrows :: bool

definition res_write :: "Connection \<Rightarrow> sse_frame \<Rightarrow> Connection" where
  "res_write res frame = (if writableEnded res then res else res\<lparr> frames := frames res @ [frame] \<rparr>)"

definition res_end :: "Connection \<Rightarrow> Connection" where
  "res_end res = res\<lparr> writableEnded := True \<rparr>"

record ChunkMetadata =
  chunk_text :: string
  chunk_timestamp :: int

text \<open>
  A call of \<^verbatim>\<open>replayChunksWithDelay\<close> suspended at one of its two \<^verbatim>\<open>await\<close>s: in the
  delay after the chunk \<open>currentIndex\<close> was written, with the \<open>totalChunks\<close> read at the top
  of the outer loop, or in the 10 ms delay after the replay caught up. The suspended call
  is kept with its subscriber; \<open>NoReplay\<close> is a subscriber without one.
\<close>

datatype replay_task = NoReplay | AtChunkDelay nat nat | AtCatchUpDelay nat

record StreamSubscriber =
  sub_id :: string
  res :: Connection
  joinedAt :: int
  isReplaying :: bool
  replayTask :: replay_task

datatype stream_status = StreamActive | StreamCompleted | StreamError

datatype promise = Promise

record ActiveStream =
  cacheKey :: string
  params :: StreamParams
  subscribers :: "(string \<times> StreamSubscriber) list"
  chunks :: "ChunkMetadata list"
  fullResponse :: string
  status :: stream_status
  error :: "string option"
  createdAt :: int
  apiCallPromise :: "promise option"

text \<open>
  The two \<^verbatim>\<open>Map\<close>s, the streams of the manager and the subscribers of a stream, are
  association lists in insertion order with one entry per key.
\<close>

type_synonym streamMap = "(string \<times> ActiveStream) list"

fun map_set :: "(string \<times> 'v) list \<Rightarrow> string \<Rightarrow> 'v \<Rightarrow> (string \<times> 'v) list" where
  "map_set [] k v = [(k, v)]"
| "map_set ((k', v') # rest) k v = (if k' = k then (k, v) # rest else (k', v') # map_set rest k v)"

definition map_delete :: "(string \<times> 'v) list \<Rightarrow> string \<Rightarrow> (string \<times> 'v) list" where
  "map_delete m k = filter (\<lambda>entry. fst entry \<noteq> k) m"

definition MAX_ACTIVE_STREAMS :: nat where
  "MAX_ACTIVE_STREAMS = 100"

definition isSubscriberConnected :: "streamMap \<Rightarrow> string \<Rightarrow> string \<Rightarrow> bool" where
  "isSubscriberConnected streams key subscriberId =
     (case map_of streams key of
        None \<Rightarrow> False
      | Some stream \<Rightarrow>
          (case map_of (subscribers stream) subscriberId of
             None \<Rightarrow> False
           | Some subscriber \<Rightarrow> \<not> writableEnded (res subscriber)))"

definition unsubscribe :: "streamMap \<Rightarrow> string \<Rightarrow> string \<Rightarrow> streamMap" where
  "unsubscribe streams key subscriberId =
     (case map_of streams key of
        None \<Rightarrow> streams
      | Some stream \<Rightarrow>
          map_set streams key (stream\<lparr> subscribers := map_delete (subscribers stream) subscriberId \<rparr>))"

text \<open>The message a subscriber is sent for an error of the stream.\<close>

definition errorMessageFor :: "string \<Rightarrow> string" where
  "errorMessageFor err =
     (if js_includes err ''Claude API''
      then ''AI service temporarily unavailable. Please try again later.''
      else if js_includes err ''API key''
      then ''Service configuration error. Please contact support.''
      else ''An error occurred while analyzing the sentence'')"

text \<open>
  \<^verbatim>\<open>sendCompletionToSubscriber\<close> and \<^verbatim>\<open>sendErrorToSubscriber\<close>: nothing for a missing stream
  or subscriber and for a subscriber that is replaying; a write that throws is caught and
  the response is then not ended.
\<close>

definition sendFinalFrame :: "StreamSubscriber \<Rightarrow> sse_frame \<Rightarrow> StreamSubscriber" where
  "sendFinalFrame subscriber frame =
     (if isReplaying subscriber \<or> writeThrows (res subscriber) then subscriber
      else subscriber\<lparr> res := res_end (res_write (res subscriber) frame) \<rparr>)"

definition sendCompletionToSubscriber :: "streamMap \<Rightarrow> string \<Rightarrow> string \<Rightarrow> streamMap" where
  "sendCompletionToSubscriber streams key subscriberId =
     (case map_of streams key of
        None \<Rightarrow> streams
      | Some stream \<Rightarrow>
          (case map_of (subscribers stream) subscriberId of
             None \<Rightarrow> streams
           | Some subscriber \<Rightarrow>
               map_set streams key
                 (stream\<lparr> subscribers := map_set (subscribers stream) subscriberId
                    (sendFinalFrame subscriber (DoneFrame (fullResponse stream))) \<rparr>)))"

definition sendErrorToSubscriber :: "streamMap \<Rightarrow> string \<Rightarrow> string \<Rightarrow> string \<Rightarrow> streamMap" where
  "sendErrorToSubscriber streams key subscriberId err =
     (case map_of streams key of
        None \<Rightarrow> streams
      | Some stream \<Rightarrow>
          (case map_of (subscribers stream) subscriberId of
             None \<Rightarrow> streams
           | Some subscriber \<Rightarrow>
               map_set streams key
                 (stream\<lparr> subscribers := map_set (subscribers stream) subscriberId
                    (sendFinalFrame subscriber (ErrorFrame (errorMessageFor err))) \<rparr>)))"

text \<open>
  The loops of \<^verbatim>\<open>replayChunksWithDelay\<close>, run from the test of the inner \<^verbatim>\<open>while\<close> to the
  next \<^verbatim>\<open>await\<close>, \<^verbatim>\<open>break\<close> or \<^verbatim>\<open>return\<close>. Nothing else runs in between, so the stream is
  the same throughout and the subscriber is in its map; \<^verbatim>\<open>isSubscriberConnected\<close> is then
  the test of \<^verbatim>\<open>writableEnded\<close>. Reading a chunk beyond the log throws inside the
  \<^verbatim>\<open>try\<close>, like a failed write.
\<close>

datatype replay_exit = Suspended replay_task | BrokeOut | ReturnedEarly | WriteFailed

function replayLoop :: "ActiveStream \<Rightarrow> Connection \<Rightarrow> nat \<Rightarrow> nat \<Rightarrow> Connection \<times> replay_exit" where
  "replayLoop stream conn currentIndex totalChunks =
     (if currentIndex < totalChunks
      then
        (if writableEnded conn then (conn, ReturnedEarly)
         else if length (chunks stream) \<le> currentIndex \<or> writeThrows conn then (conn, WriteFailed)
         else
           let conn' = res_write conn (ChunkFrame (chunk_text (chunks stream ! currentIndex))) in
           if currentIndex + 1 < length (chunks stream)
           then (conn', Suspended (AtChunkDelay currentIndex totalChunks))
           else replayLoop stream conn' (currentIndex + 1) totalChunks)
      else if currentIndex \<ge> length (chunks stream)
      then
        (if status stream = StreamCompleted \<or> status stream = StreamError then (conn, BrokeOut)
         else (conn, Suspended (AtCatchUpDelay currentIndex)))
      else replayLoop stream conn currentIndex (length (chunks stream)))"
  by pat_completeness auto
termination
  by (relation "measure (\<lambda>(stream, conn, currentIndex, totalChunks).
        2 * (length (chunks stream) - currentIndex) + (if currentIndex < totalChunks then 0 else 1))")
     auto

definition setSubscriber :: "streamMap \<Rightarrow> string \<Rightarrow> string \<Rightarrow> StreamSubscriber \<Rightarrow> streamMap" where
  "setSubscriber streams key subscriberId subscriber =
     (case map_of streams key of
        None \<Rightarrow> streams
      | Some stream \<Rightarrow>
          map_set streams key
            (stream\<lparr> subscribers := map_set (subscribers stream) subscriberId subscriber \<rparr>))"

text \<open>The statements after the outer loop: the subscriber leaves replay mode and is sent
  the frame of a stream that completed or failed in the meantime.\<close>

definition finishReplay :: "streamMap \<Rightarrow> string \<Rightarrow> string \<Rightarrow> streamMap" where
  "finishReplay streams key subscriberId =
     (case map_of streams key of
        None \<Rightarrow> streams
      | Some stream \<Rightarrow>
          let streams1 =
                (case map_of (subscribers stream) subscriberId of
                   None \<Rightarrow> streams
                 | Some updatedSubscriber \<Rightarrow>
                     setSubscriber streams key subscriberId
                       (updatedSubscriber\<lparr> isReplaying := False, replayTask := NoReplay \<rparr>))
          in if status stream = StreamCompleted
             then sendCompletionToSubscriber streams1 key subscriberId
             else if status stream = StreamError
             then sendErrorToSubscriber streams1 key subscriberId
                    (case error stream of
                       None \<Rightarrow> ''Unknown error''
                     | Some e \<Rightarrow> if e = [] then ''Unknown error'' else e)
             else streams1)"

definition runReplay :: "streamMap \<Rightarrow> string \<Rightarrow> string \<Rightarrow> nat \<Rightarrow> nat \<Rightarrow> streamMap" where
  "runReplay streams key subscriberId currentIndex totalChunks =
     (case map_of streams key of
        None \<Rightarrow> streams
      | Some stream \<Rightarrow>
          (case map_of (subscribers stream) subscriberId of
             None \<Rightarrow> streams
           | Some subscriber \<Rightarrow>
               (case replayLoop stream (res subscriber) currentIndex totalChunks of
                  (conn, Suspended task) \<Rightarrow>
                    setSubscriber streams key subscriberId
                      (subscriber\<lparr> res := conn, replayTask := task \<rparr>)
                | (conn, ReturnedEarly) \<Rightarrow>
                    setSubscriber streams key subscriberId
                      (subscriber\<lparr> res := conn, replayTask := NoReplay \<rparr>)
                | (conn, WriteFailed) \<Rightarrow> unsubscribe streams key subscriberId
                | (conn, BrokeOut) \<Rightarrow>
                    finishReplay
                      (setSubscriber streams key subscriberId
                         (subscriber\<lparr> res := conn, replayTask := NoReplay \<rparr>))
                      key subscriberId)))"

text \<open>The call itself, up to its first \<^verbatim>\<open>await\<close>, and its continuation when a delay has
  passed.\<close>

definition replayChunksWithDelay :: "streamMap \<Rightarrow> string \<Rightarrow> string \<Rightarrow> nat \<Rightarrow> streamMap" where
  "replayChunksWithDelay streams key subscriberId startIndex =
     (case map_of streams key of
        None \<Rightarrow> streams
      | Some stream \<Rightarrow> runReplay streams key subscriberId startIndex (length (chunks stream)))"

definition resumeReplay :: "streamMap \<Rightarrow> string \<Rightarrow> string \<Rightarrow> streamMap" where
  "resumeReplay streams key subscriberId =
     (case map_of streams key of
        None \<Rightarrow> streams
      | Some stream \<Rightarrow>
          (case map_of (subscribers stream) subscriberId of
             None \<Rightarrow> streams
           | Some subscriber \<Rightarrow>
               (case replayTask subscriber of
                  NoReplay \<Rightarrow> streams
                | AtChunkDelay currentIndex totalChunks \<Rightarrow>
                    runReplay streams key subscriberId (currentIndex + 1) totalChunks
                | AtCatchUpDelay currentIndex \<Rightarrow>
                    if currentIndex \<ge> length (chunks stream) \<and> status stream = StreamActive
                    then finishReplay streams key subscriberId
                    else runReplay streams key subscriberId currentIndex (length (chunks stream)))))"

definition subscribe ::
  "streamMap \<Rightarrow> string \<Rightarrow> Connection \<Rightarrow> string \<Rightarrow> int \<Rightarrow> string + streamMap" where
  "subscribe streams key conn subscriberId now =
     (case map_of streams key of
        None \<Rightarrow> Inl (''Stream not found: '' @ key)
      | Some stream \<Rightarrow>
          let hasAccumulatedChunks = (length (chunks stream) > 0);
              subscriber = \<lparr> sub_id = subscriberId, res = conn, joinedAt = now,
                             isReplaying = hasAccumulatedChunks, replayTask = NoReplay \<rparr>;
              streams1 = setSubscriber streams key subscriberId subscriber
          in Inr (if hasAccumulatedChunks then replayChunksWithDelay streams1 key subscriberId 0
                  else if status stream = StreamCompleted
                  then sendCompletionToSubscriber streams1 key subscriberId
                  else if status stream = StreamError
                  then sendErrorToSubscriber streams1 key subscriberId
                         (case error stream of
                            None \<Rightarrow> ''Unknown error''
                          | Some e \<Rightarrow> if e = [] then ''Unknown error'' else e)
                  else streams1))"

text \<open>
  The broadcast loops of \<^verbatim>\<open>publishChunk\<close>, \<^verbatim>\<open>completeStream\<close> and \<^verbatim>\<open>errorStream\<close>: a
  subscriber in replay mode is skipped, one whose write throws is collected and removed
  after the loop, the others are written to.
\<close>

definition deadSubscribers :: "(string \<times> StreamSubscriber) list \<Rightarrow> string list" where
  "deadSubscribers subs =
     map fst (filter (\<lambda>entry. \<not> isReplaying (snd entry) \<and> writeThrows (res (snd entry))) subs)"

definition broadcast ::
  "(Connection \<Rightarrow> Connection) \<Rightarrow> (string \<times> StreamSubscriber) list \<Rightarrow> (string \<times> StreamSubscriber) list" where
  "broadcast send subs =
     fold (\<lambda>subscriberId m. map_delete m subscriberId) (deadSubscribers subs)
       (map (\<lambda>entry. if isReplaying (snd entry) \<or> writeThrows (res (snd entry)) then entry
                       else (fst entry, (snd entry)\<lparr> res := send (res (snd entry)) \<rparr>)) subs)"

definition publishChunk :: "streamMap \<Rightarrow> string \<Rightarrow> string \<Rightarrow> int \<Rightarrow> streamMap" where
  "publishChunk streams key chunk now =
     (case map_of streams key of
        None \<Rightarrow> streams
      | Some stream \<Rightarrow>
          map_set streams key
            (stream\<lparr> chunks := chunks stream
                        @ [\<lparr> chunk_text = chunk, chunk_timestamp = now - createdAt stream \<rparr>],
                     fullResponse := fullResponse stream @ chunk,
                     subscribers := broadcast (\<lambda>conn. res_write conn (ChunkFrame chunk))
                                      (subscribers stream) \<rparr>))"

definition completeStream :: "streamMap \<Rightarrow> string \<Rightarrow> streamMap" where
  "completeStream streams key =
     (case map_of streams key of
        None \<Rightarrow> streams
      | Some stream \<Rightarrow>
          map_set streams key
            (stream\<lparr> status := StreamCompleted,
                     subscribers := broadcast
                        (\<lambda>conn. res_end (res_write conn (DoneFrame (fullResponse stream))))
                        (subscribers stream) \<rparr>))"

definition errorStream :: "streamMap \<Rightarrow> string \<Rightarrow> string \<Rightarrow> streamMap" where
  "errorStream streams key err =
     (case map_of streams key of
        None \<Rightarrow> streams
      | Some stream \<Rightarrow>
          map_set streams key
            (stream\<lparr> status := StreamError, error := Some err,
                     subscribers := broadcast
                        (\<lambda>conn. res_end (res_write conn (ErrorFrame (errorMessageFor err))))
                        (subscribers stream) \<rparr>))"

text \<open>The callbacks of the two timers: \<^verbatim>\<open>scheduleCleanup\<close>, five minutes after a stream
  completed, and the one \<^verbatim>\<open>errorStream\<close> sets, a second after the error.\<close>

definition cleanupTimer :: "streamMap \<Rightarrow> string \<Rightarrow> streamMap" where
  "cleanupTimer streams key =
     (case map_of streams key of
        None \<Rightarrow> streams
      | Some stream \<Rightarrow> if length (subscribers stream) = 0 then map_delete streams key else streams)"

definition errorCleanupTimer :: "streamMap \<Rightarrow> string \<Rightarrow> streamMap" where
  "errorCleanupTimer streams key = map_delete streams key"

definition cleanupOldestCompletedStreams :: "streamMap \<Rightarrow> streamMap" where
  "cleanupOldestCompletedStreams streams =
     (let completedStreams =
            sort_key (\<lambda>entry. createdAt (snd entry))
              (filter (\<lambda>entry. status (snd entry) = StreamCompleted \<and>
                                length (subscribers (snd entry)) = 0) streams);
          toRemove = max 1 (length completedStreams div 10)
      in fold (\<lambda>entry m. map_delete m (fst entry)) (take toRemove completedStreams) streams)"

definition createStream :: "streamMap \<Rightarrow> string \<Rightarrow> StreamParams \<Rightarrow> int \<Rightarrow> streamMap" where
  "createStream streams key streamParams now =
     (let streams1 = (if length streams \<ge> MAX_ACTIVE_STREAMS
                      then cleanupOldestCompletedStreams streams else streams)
      in map_set streams1 key
           \<lparr> cacheKey = key, params = streamParams, subscribers = [], chunks = [],
             fullResponse = [], status = StreamActive, error = None, createdAt = now,
             apiCallPromise = None \<rparr>)"

definition getStream :: "streamMap \<Rightarrow> string \<Rightarrow> ActiveStream option" where
  "getStream streams key = map_of streams key"

definition hasActiveStream :: "streamMap \<Rightarrow> string \<Rightarrow> bool" where
  "hasActiveStream streams key =
     (case map_of streams key of None \<Rightarrow> False | Some stream \<Rightarrow> status stream = StreamActive)"

text \<open>
  An upstream call that was started: \<^verbatim>\<open>analyzeSentenceWithClaudeStream\<close> invoked for a cache
  key with the parameters of its stream. \<^verbatim>\<open>startStream\<close> returns the calls it starts, none
  or one; a missing stream rejects its promise, which \<^verbatim>\<open>getOrCreateStream\<close> only logs.
\<close>

record UpstreamCall =
  call_cacheKey :: string
  call_params :: StreamParams

definition startStream ::
  "streamMap \<Rightarrow> string \<Rightarrow> StreamParams \<Rightarrow> string + (streamMap \<times> UpstreamCall list)" where
  "startStream streams key streamParams =
     (case map_of streams key of
        None \<Rightarrow> Inl (''Stream not found: '' @ key)
      | Some stream \<Rightarrow>
          (case apiCallPromise stream of
             Some p \<Rightarrow> Inr (streams, [])
           | None \<Rightarrow>
               Inr (map_set streams key (stream\<lparr> apiCallPromise := Some Promise \<rparr>),
                    [\<lparr> call_cacheKey = key, call_params = streamParams \<rparr>])))"

definition getOrCreateStream ::
  "streamMap \<Rightarrow> string \<Rightarrow> StreamParams \<Rightarrow> int \<Rightarrow> streamMap \<times> UpstreamCall list" where
  "getOrCreateStream streams key streamParams now =
     (case map_of streams key of
        Some stream \<Rightarrow> (streams, [])
      | None \<Rightarrow>
          let streams1 = createStream streams key streamParams now in
          (case startStream streams1 key streamParams of
             Inl err \<Rightarrow> (streams1, [])
           | Inr started \<Rightarrow> started))"

text \<open>
  The part of the handler of POST /analyze/stream that works on the manager: it joins a
  stream that is active, and otherwise gets or creates one and subscribes to it. It runs
  without an \<^verbatim>\<open>await\<close> between the look-up and the subscription.
\<close>

definition joinOrCreateStream ::
  "streamMap \<Rightarrow> string \<Rightarrow> StreamParams \<Rightarrow> Connection \<Rightarrow> string \<Rightarrow> int \<Rightarrow>
   (string + streamMap) \<times> UpstreamCall list" where
  "joinOrCreateStream streams key streamParams conn subscriberId now =
     (case getStream streams key of
        Some existingStream \<Rightarrow>
          if status existingStream = StreamActive
          then (subscribe streams key conn subscriberId now, [])
          else
            (case getOrCreateStream streams key streamParams now of
               (streams1, calls) \<Rightarrow> (subscribe streams1 key conn subscriberId now, calls))
      | None \<Rightarrow>
          (case getOrCreateStream streams key streamParams now of
             (streams1, calls) \<Rightarrow> (subscribe streams1 key conn subscriberId now, calls)))"

text \<open>
  The states of the manager. It starts with no stream; each rule is one piece of code
  that runs without interruption: a call of the manager by a request handler or by the
  upstream callback, the continuation of a replay after its delay, the callback of a
  timer, the \<^verbatim>\<open>close\<close> handler of a response (\<^const>\<open>unsubscribe\<close>), or a connection that
  breaks so that writes on it throw. A subscriber joins with a response nothing was
  written to and with an id, a fresh UUID, that no subscriber of the stream has.
\<close>

definition freshConnection :: Connection where
  "freshConnection = \<lparr> frames = [], writableEnded = False, writeThrows = False \<rparr>"

definition breakConnection :: "streamMap \<Rightarrow> string \<Rightarrow> string \<Rightarrow> streamMap" where
  "breakConnection streams key subscriberId =
     (case map_of streams key of
        None \<Rightarrow> streams
      | Some stream \<Rightarrow>
          (case map_of (subscribers stream) subscriberId of
             None \<Rightarrow> streams
           | Some subscriber \<Rightarrow>
               setSubscriber streams key subscriberId
                 (subscriber\<lparr> res := (res subscriber)\<lparr> writeThrows := True \<rparr> \<rparr>)))"

inductive reachable :: "streamMap \<Rightarrow> bool" where
  reach_start: "reachable []"
| reach_getOrCreate:
    "reachable streams \<Longrightarrow> reachable (fst (getOrCreateStream streams key streamParams now))"
| reach_startStream:
    "reachable streams \<Longrightarrow> startStream streams key streamParams = Inr (streams', calls) \<Longrightarrow>
     reachable streams'"
| reach_subscribe:
    "reachable streams \<Longrightarrow>
     (\<forall>stream. map_of streams key = Some stream \<longrightarrow> map_of (subscribers stream) subscriberId = None) \<Longrightarrow>
     subscribe streams key freshConnection subscriberId now = Inr streams' \<Longrightarrow>
     reachable streams'"
| reach_unsubscribe:
    "reachable streams \<Longrightarrow> reachable (unsubscribe streams key subscriberId)"
| reach_publishChunk:
    "reachable streams \<Longrightarrow> reachable (publishChunk streams key chunk now)"
| reach_completeStream:
    "reachable streams \<Longrightarrow> reachable (completeStream streams key)"
| reach_errorStream:
    "reachable streams \<Longrightarrow> reachable (errorStream streams key err)"
| reach_resumeReplay:
    "reachable streams \<Longrightarrow> reachable (resumeReplay streams key subscriberId)"
| reach_cleanupTimer:
    "reachable streams \<Longrightarrow> reachable (cleanupTimer streams key)"
| reach_errorCleanupTimer:
    "reachable streams \<Longrightarrow> reachable (errorCleanupTimer streams key)"
| reach_breakConnection:
    "reachable streams \<Longrightarrow> reachable (breakConnection streams key subscriberId)"

text \<open>The chunks among the frames written to a response, and what relates a subscriber
  to the chunk log of its stream: the chunks it was sent are those of the log up to the
  point its replay has reached, and all of them once it is live on an open connection.\<close>

fun chunkTexts :: "sse_frame list \<Rightarrow> string list" where
  "chunkTexts [] = []"
| "chunkTexts (ChunkFrame t # rest) = t # chunkTexts rest"
| "chunkTexts (DoneFrame t # rest) = chunkTexts rest"
| "chunkTexts (ErrorFrame t # rest) = chunkTexts rest"

definition subscriberConsistent :: "string list \<Rightarrow> StreamSubscriber \<Rightarrow> bool" where
  "subscriberConsistent chunkLog subscriber =
     (prefix (chunkTexts (frames (res subscriber))) chunkLog \<and>
      (if isReplaying subscriber
       then \<not> writableEnded (res subscriber) \<and>
            (case replayTask subscriber of
               NoReplay \<Rightarrow> False
             | AtChunkDelay currentIndex totalChunks \<Rightarrow>
                 chunkTexts (frames (res subscriber)) = take (currentIndex + 1) chunkLog \<and>
                 currentIndex + 1 < length chunkLog \<and> totalChunks \<le> length chunkLog
             | AtCatchUpDelay currentIndex \<Rightarrow>
                 chunkTexts (frames (res subscriber)) = take currentIndex chunkLog \<and>
                 currentIndex \<le> length chunkLog)
       else replayTask subscriber = NoReplay \<and>
            (writableEnded (res subscriber) \<or> writeThrows (res subscriber) \<or>
             chunkTexts (frames (res subscriber)) = chunkLog)))"

definition streamConsistent :: "ActiveStream \<Rightarrow> bool" where
  "streamConsistent stream =
     list_all (\<lambda>entry. subscriberConsistent (map chunk_text (chunks stream)) (snd entry))
       (subscribers stream)"

text \<open>What a run of the replay loop that starts with the chunks before \<open>currentIndex\<close>
  written leaves on the response, by the way the run ends.\<close>

definition exitConsistent :: "string list \<Rightarrow> Connection \<Rightarrow> replay_exit \<Rightarrow> bool" where
  "exitConsistent chunkLog conn exit =
     (case exit of
        Suspended NoReplay \<Rightarrow> False
      | Suspended (AtChunkDelay currentIndex totalChunks) \<Rightarrow>
          chunkTexts (frames conn) = take (currentIndex + 1) chunkLog \<and>
          currentIndex + 1 < length chunkLog \<and> totalChunks \<le> length chunkLog
      | Suspended (AtCatchUpDelay currentIndex) \<Rightarrow>
          chunkTexts (frames conn) = take currentIndex chunkLog \<and>
          currentIndex \<le> length chunkLog
      | BrokeOut \<Rightarrow> chunkTexts (frames conn) = chunkLog
      | ReturnedEarly \<Rightarrow> writableEnded conn
      | WriteFailed \<Rightarrow> writeThrows conn)"

abbreviation (input) allConsistent :: "streamMap \<Rightarrow> bool" where
  "allConsistent streams \<equiv> list_all (\<lambda>entry. streamConsistent (snd entry)) streams"

text \<open>The keys of the manager's map with, for each stream, its own key and its
  \<^verbatim>\<open>apiCallPromise\<close>; the map is in order when no key occurs twice and every stream
  sits under its own key with its upstream call started.\<close>

definition registryShape :: "streamMap \<Rightarrow> (string \<times> string \<times> promise option) list" where
  "registryShape streams = map (\<lambda>entry. (fst entry, cacheKey (snd entry), apiCallPromise (snd entry))) streams"

definition shapeOk :: "(string \<times> string \<times> promise option) list \<Rightarrow> bool" where
  "shapeOk sh = (distinct (map fst sh) \<and> list_all (\<lambda>e. fst (snd e) = fst e \<and> snd (snd e) = Some Promise) sh)"

text \<open>The subscriber that the manager finds under a cache key and a subscriber id.\<close>

definition subscriberAt :: "streamMap \<Rightarrow> string \<Rightarrow> string \<Rightarrow> StreamSubscriber option" where
  "subscriberAt streams key subscriberId =
     (case map_of streams key of
        None \<Rightarrow> None
      | Some stream \<Rightarrow> map_of (subscribers stream) subscriberId)"

subsection \<open>Timers and upstream calls\<close>

text \<open>
  The manager with what is pending beside its map: the upstream calls that
  \<^verbatim>\<open>startStream\<close> started, in the order they were started, those of them that have
  returned or thrown, and the keys for which a timer of \<^verbatim>\<open>scheduleCleanup\<close> or of
  \<^verbatim>\<open>errorStream\<close> is set and has not fired. No \<^verbatim>\<open>setTimeout\<close> of the manager is ever
  cleared, so a timer stays pending until it fires.
\<close>

record Manager =
  registry :: streamMap
  upstreamCalls :: "UpstreamCall list"
  settledCalls :: "nat list"
  cleanupTimers :: "string list"
  errorTimers :: "string list"

text \<open>
  What can happen, each an uninterrupted piece of code: a request that missed the
  analysis cache and reaches the manager (\<^const>\<open>joinOrCreateStream\<close>, with a new response and
  a new subscriber id), the \<^verbatim>\<open>close\<close> of a response, the continuation of a replay, an
  upstream call that passes a chunk to its callback, returns, or throws, and a timer
  that fires. The callbacks of an upstream call and of a timer hold the cache key, not
  the stream.
\<close>

datatype event =
    Request string StreamParams string int
  | Close string string
  | Resume string string
  | Chunk nat string int
  | Returns nat
  | Throws nat string
  | CleanupFires string
  | ErrorCleanupFires string

definition inFlight :: "Manager \<Rightarrow> nat \<Rightarrow> bool" where
  "inFlight m n = (n < length (upstreamCalls m) \<and> n \<notin> set (settledCalls m))"

definition callsInFlight :: "Manager \<Rightarrow> string \<Rightarrow> nat list" where
  "callsInFlight m key =
     filter (\<lambda>n. inFlight m n \<and> call_cacheKey (upstreamCalls m ! n) = key) [0..<length (upstreamCalls m)]"

fun step :: "event \<Rightarrow> Manager \<Rightarrow> Manager option" where
  "step (Request key streamParams subscriberId now) m =
     (if subscriberAt (registry m) key subscriberId \<noteq> None then None
      else
        (case joinOrCreateStream (registry m) key streamParams freshConnection subscriberId now of
           (Inl err, started) \<Rightarrow>
             Some (m\<lparr> registry := fst (getOrCreateStream (registry m) key streamParams now),
                      upstreamCalls := upstreamCalls m @ started \<rparr>)
         | (Inr streams', started) \<Rightarrow>
             Some (m\<lparr> registry := streams', upstreamCalls := upstreamCalls m @ started \<rparr>)))"
| "step (Close key subscriberId) m =
     Some (m\<lparr> registry := unsubscribe (registry m) key subscriberId \<rparr>)"
| "step (Resume key subscriberId) m =
     Some (m\<lparr> registry := resumeReplay (registry m) key subscriberId \<rparr>)"
| "step (Chunk n chunk now) m =
     (if inFlight m n
      then Some (m\<lparr> registry := publishChunk (registry m) (call_cacheKey (upstreamCalls m ! n)) chunk now \<rparr>)
      else None)"
| "step (Returns n) m =
     (if inFlight m n
      then let key = call_cacheKey (upstreamCalls m ! n) in
           Some (m\<lparr> registry := completeStream (registry m) key,
                    settledCalls := n # settledCalls m,
                    cleanupTimers := (case map_of (registry m) key of
                                        None \<Rightarrow> cleanupTimers m
                                      | Some stream \<Rightarrow> cleanupTimers m @ [key]) \<rparr>)
      else None)"
| "step (Throws n err) m =
     (if inFlight m n
      then let key = call_cacheKey (upstreamCalls m ! n) in
           Some (m\<lparr> registry := errorStream (registry m) key err,
                    settledCalls := n # settledCalls m,
                    errorTimers := (case map_of (registry m) key of
                                      None \<Rightarrow> errorTimers m
                                    | Some stream \<Rightarrow> errorTimers m @ [key]) \<rparr>)
      else None)"
| "step (CleanupFires key) m =
     (if key \<in> set (cleanupTimers m)
      then Some (m\<lparr> registry := cleanupTimer (registry m) key,
                    cleanupTimers := remove1 key (cleanupTimers m) \<rparr>)
      else None)"
| "step (ErrorCleanupFires key) m =
     (if key \<in> set (errorTimers m)
      then Some (m\<lparr> registry := errorCleanupTimer (registry m) key,
                    errorTimers := remove1 key (errorTimers m) \<rparr>)
      else None)"

text \<open>A sequence of events from a state; \<open>None\<close> when one of them cannot happen there, a
  call that is not in flight or a timer that is not set.\<close>

fun run :: "event list \<Rightarrow> Manager \<Rightarrow> Manager option" where
  "run [] m = Some m"
| "run (e # es) m = (case step e m of None \<Rightarrow> None | Some m' \<Rightarrow> run es m')"

definition noStreams :: Manager where
  "noStreams = \<lparr> registry = [], upstreamCalls = [], settledCalls = [], cleanupTimers = [], errorTimers = [] \<rparr>"

definition outcome :: "event list \<Rightarrow> Manager" where
  "outcome events = (case run events noStreams of None \<Rightarrow> noStreams | Some m \<Rightarrow> m)"

definition loggedChunks :: "Manager \<Rightarrow> string \<Rightarrow> string list option" where
  "loggedChunks m key = map_option (\<lambda>stream. map chunk_text (chunks stream)) (map_of (registry m) key)"

definition streamStatus :: "Manager \<Rightarrow> string \<Rightarrow> stream_status option" where
  "streamStatus m key = map_option status (map_of (registry m) key)"

text \<open>
  A run in which a timer outlives its stream, with the times in milliseconds. The
  analysis of \<^verbatim>\<open>''s''\<close> completes with an empty response, which the route does not store
  in the analysis cache, and its client leaves. A hundred requests for other keys, ten a
  second, fill the map, and the last of them makes \<^const>\<open>createStream\<close> remove the
  completed stream, whose cleanup timer stays set. The analysis of \<^verbatim>\<open>''s''\<close> is
  requested again, its client leaves, and the timer fires, five minutes after it was
  set, while the second upstream call is in flight. A third request for \<^verbatim>\<open>''s''\<close> then
  finds no stream, and each of the two calls in flight passes a chunk to its callback.
\<close>

definition otherKey :: "nat \<Rightarrow> string" where
  "otherKey n = replicate n CHR ''k''"

definition someParams :: StreamParams where
  "someParams = \<lparr> sp_sentence = ''s'', sp_targetWord = ''w'', sp_targetLanguage = ''fr'',
       sp_nativeLanguage = ''en'', sp_contextBefore = None, sp_contextAfter = None \<rparr>"

definition staleTimerRun :: "event list" where
  "staleTimerRun =
     [Request ''s'' someParams ''a'' 0, Returns 0, Close ''s'' ''a'']
     @ map (\<lambda>n. Request (otherKey n) someParams (otherKey n) (280000 + 100 * int n)) [1..<101]
     @ [Request ''s'' someParams ''b'' 291000, Close ''s'' ''b'', CleanupFires ''s'',
        Request ''s'' someParams ''c'' 302000, Chunk 101 ''x'' 303000, Chunk 102 ''y'' 304000]"

text \<open>
  A run in which the timer of \<^verbatim>\<open>errorStream\<close> ends a replay, with the times in
  milliseconds. The stream of \<^verbatim>\<open>''s''\<close> has logged 36 chunks, 100 apart, when the
  subscriber \<^verbatim>\<open>''d''\<close> joins and is sent chunk 0; the upstream call then throws, and
  \<^verbatim>\<open>errorStream\<close> skips \<^verbatim>\<open>''d''\<close>, which is in replay mode, and sets its timer of one second.
  The replay waits 30 before each further chunk, so that 33 of its continuations run
  before the timer fires.
\<close>

definition chunkName :: "nat \<Rightarrow> string" where
  "chunkName i = ''chunk '' @ nat_toString i"

definition replayCutShort :: "event list" where
  "replayCutShort =
     [Request ''s'' someParams ''a'' 0]
     @ map (\<lambda>i. Chunk 0 (chunkName i) (100 * (int i + 1))) [0..<36]
     @ [Request ''s'' someParams ''d'' 3650, Throws 0 ''Claude API error: overloaded'']
     @ replicate 33 (Resume ''s'' ''d'')"

text \<open>The delay of the replay between two chunks of the log.\<close>

definition replayDelayMs :: "ChunkMetadata \<Rightarrow> ChunkMetadata \<Rightarrow> int" where
  "replayDelayMs chunk nextChunk =
     min (max ((chunk_timestamp nextChunk - chunk_timestamp chunk) div 3) 5) 30"

definition replayDelays :: "ActiveStream \<Rightarrow> int list" where
  "replayDelays stream =
     map (\<lambda>i. replayDelayMs (chunks stream ! i) (chunks stream ! Suc i))
       [0..<length (chunks stream) - 1]"

text \<open>The chunk frames of the first \<open>n\<close> chunks of that run, and its stream with \<open>n\<close> chunks
  logged, by the subscribers, the status and the error it has.\<close>

definition sentChunks :: "nat \<Rightarrow> sse_frame list" where
  "sentChunks n = map (\<lambda>i. ChunkFrame (chunkName i)) [0..<n]"

definition loggedStream ::
  "nat \<Rightarrow> (string \<times> StreamSubscriber) list \<Rightarrow> stream_status \<Rightarrow> string option \<Rightarrow> ActiveStream" where
  "loggedStream n subs stat err =
     \<lparr> cacheKey = ''s'', params = someParams, subscribers = subs,
       chunks = map (\<lambda>i. \<lparr> chunk_text = chunkName i, chunk_timestamp = 100 * (int i + 1) \<rparr>) [0..<n],
       fullResponse = concat (map chunkName [0..<n]), status = stat, error = err,
       createdAt = 0, apiCallPromise = Some Promise \<rparr>"

section \<open>Properties of query normalisation\<close>

lemma hasSpaces_iff: "hasSpaces s \<longleftrightarrow> (\<exists>c\<in>set s. js_isspace c)"
  by (simp add: hasSpaces_def list_ex_iff)

lemma hasPunctuation_iff:
  "hasPunctuation s \<longleftrightarrow> (\<exists>c\<in>set s. c \<in> {CHR ''.'', CHR '','', CHR ''!'', CHR ''?'', CHR '';'', CHR '':''})"
  by (simp add: hasPunctuation_def list_ex_iff)

text \<open>
  C8, as the code has it. \<^const>\<open>normalizeQuery\<close> measures the trimmed query, not the raw
  one: it fails exactly when the trimmed query is empty or longer than 200 characters.
  Otherwise it returns the trimmed, lower-cased query, which is non-empty and at most 200
  characters long; its type is \<^const>\<open>Sentence\<close> iff that canonical form holds a white-space
  character or one of the characters \<^verbatim>\<open>.,!?;:\<close>, and \<^const>\<open>Word\<close> otherwise.
\<close>

theorem normalizeQuery_trimmed:
  "(isl (normalizeQuery raw) \<longleftrightarrow> js_trim raw = [] \<or> 200 < length (js_trim raw)) \<and>
   (\<not> isl (normalizeQuery raw) \<longrightarrow>
      normalizeQuery raw =
        Inr \<lparr> normalized = js_toLowerCase (js_trim raw),
              type = (if \<exists>c\<in>set (js_toLowerCase (js_trim raw)).
                          js_isspace c \<or> c \<in> {CHR ''.'', CHR '','', CHR ''!'', CHR ''?'', CHR '';'', CHR '':''}
                      then Sentence else Word) \<rparr> \<and>
      length (js_toLowerCase (js_trim raw)) \<le> 200 \<and> js_toLowerCase (js_trim raw) \<noteq> [])"
  by (auto simp: normalizeQuery_def Let_def hasSpaces_iff hasPunctuation_iff js_toLowerCase_def)

theorem normalizeQuery_trimmed_witness:
  "\<not> isl (normalizeQuery ''Hello, World '') \<and>
   normalizeQuery ''Hello, World '' = Inr \<lparr> normalized = ''hello, world'', type = Sentence \<rparr>"
proof -
  have e: "normalizeQuery ''Hello, World '' = Inr \<lparr> normalized = ''hello, world'', type = Sentence \<rparr>"
    by code_simp
  from normalizeQuery_trimmed [of "''Hello, World ''"] show ?thesis
    by (simp add: e)
qed

text \<open>
  C8 as stated speaks of the raw input. A single space is neither empty nor longer than
  200 characters, and is rejected; the letter a followed by 200 spaces is 201 characters
  long, and is accepted.
\<close>

theorem normalizeQuery_raw_length_counterexample:
  "'' '' \<noteq> [] \<and> \<not> 200 < length '' '' \<and> normalizeQuery '' '' = Inl ''Query cannot be empty'' \<and>
   200 < length (CHR ''a'' # replicate 200 CHR '' '') \<and>
   normalizeQuery (CHR ''a'' # replicate 200 CHR '' '') = Inr \<lparr> normalized = ''a'', type = Word \<rparr>"
  by (simp add: normalizeQuery_def js_trim_def js_isspace_def js_toLowerCase_def js_lower_char_def
      hasSpaces_def hasPunctuation_def dropWhile_append3)

section \<open>Properties of the word index\<close>

lemma js_lower_char_idem: "js_lower_char (js_lower_char c) = js_lower_char c"
  by (auto simp: js_lower_char_def Let_def)

lemma js_toLowerCase_idem: "js_toLowerCase (js_toLowerCase s) = js_toLowerCase s"
  by (simp add: js_toLowerCase_def js_lower_char_idem)

lemma js_lower_char_space: "js_lower_char (CHR '' '') = CHR '' ''"
  by (simp add: js_lower_char_def)

lemma set_js_split_ws_from:
  "w \<in> set (js_split_ws_from b acc s) \<Longrightarrow> set w \<subseteq> set acc \<union> set s"
  by (induction b acc s rule: js_split_ws_from.induct) (auto split: if_splits)

lemma set_js_unique_from: "set (js_unique_from seen xs) \<subseteq> set xs"
  by (induction seen xs rule: js_unique_from.induct) auto

lemma extractWords_chars:
  assumes "w \<in> set (extractWords c)" and "x \<in> set w"
  shows "js_lower_char x = x"
proof -
  from assms(1) have "w \<in> set (js_split_ws (map (\<lambda>c. if isWordPunctuation c then CHR '' '' else c) (js_toLowerCase c)))"
    using set_js_unique_from by (fastforce simp: extractWords_def js_unique_def Let_def)
  then have "set w \<subseteq> set (map (\<lambda>c. if isWordPunctuation c then CHR '' '' else c) (js_toLowerCase c))"
    using set_js_split_ws_from by (fastforce simp: js_split_ws_def)
  with assms(2) have "x \<in> (\<lambda>c. if isWordPunctuation c then CHR '' '' else c) ` js_lower_char ` set c"
    by (auto simp: js_toLowerCase_def)
  then obtain y where "x = (if isWordPunctuation (js_lower_char y) then CHR '' '' else js_lower_char y)"
    by blast
  then show ?thesis
    by (simp add: js_lower_char_idem js_lower_char_space)
qed

lemma extractWords_lower: "w \<in> set (extractWords c) \<Longrightarrow> js_toLowerCase w = w"
  by (simp add: js_toLowerCase_def map_idI extractWords_chars)

lemma addVideoToWordIndex_other: "k \<notin> set ws \<Longrightarrow> addVideoToWordIndex db ws v k = db k"
  by (induction db ws v rule: addVideoToWordIndex.induct) (auto split: option.splits if_splits)

text \<open>
  C9. \<^const>\<open>findByWord\<close> gives the same result for a word and for its lower-case form;
  every word \<^const>\<open>extractWords\<close> returns is its own lower-case form; and an index whose
  keys are all lower case keeps that property when the words of a caption are added.
\<close>

theorem findByWord_case_insensitive:
  "findByWord db w = findByWord db (js_toLowerCase w) \<and>
   (\<forall>x\<in>set (extractWords c). js_toLowerCase x = x) \<and>
   ((\<forall>k\<in>dom db. js_toLowerCase k = k) \<longrightarrow>
      (\<forall>k\<in>dom (addVideoToWordIndex db (extractWords c) v). js_toLowerCase k = k))"
proof -
  have "js_toLowerCase k = k"
    if "\<forall>k\<in>dom db. js_toLowerCase k = k" and "k \<in> dom (addVideoToWordIndex db (extractWords c) v)" for k
  proof (cases "k \<in> set (extractWords c)")
    case True
    then show ?thesis by (rule extractWords_lower)
  next
    case False
    then have "addVideoToWordIndex db (extractWords c) v k = db k"
      by (rule addVideoToWordIndex_other)
    with that show ?thesis by (auto simp: dom_def)
  qed
  then show ?thesis
    by (simp add: findByWord_def js_toLowerCase_idem extractWords_lower)
qed

theorem findByWord_case_insensitive_witness:
  "findByWord (Map.empty(''hello'' \<mapsto> [])) ''HeLLo'' = Some [] \<and>
   js_toLowerCase ''world'' = ''world''"
proof -
  let ?db = "Map.empty(''hello'' \<mapsto> ([] :: VideoResponse list))"
  have l: "js_toLowerCase ''HeLLo'' = ''hello''"
    by code_simp
  have w: "extractWords ''Hello, World hello'' = [''hello'', ''world'']"
    by code_simp
  have h: "js_toLowerCase ''hello'' = ''hello''"
    by code_simp
  have d: "\<forall>k\<in>dom ?db. js_toLowerCase k = k"
    using h by simp
  from findByWord_case_insensitive [of ?db "''HeLLo''" "''Hello, World hello''" undefined] d
  show ?thesis
    by (simp add: l w findByWord_def)
qed

section \<open>Properties of sentence boundary detection\<close>

lemma scanBackward_spec:
  "(n = 0 \<longrightarrow> s = 0) \<Longrightarrow>
   scanBackward segs s n \<le> n \<and>
   (scanBackward segs s n = 0 \<or> endsSentence (js_trim (seg_text (segs ! (scanBackward segs s n - 1))))) \<and>
   (\<forall>i. scanBackward segs s n \<le> i \<and> i < n \<longrightarrow> \<not> endsSentence (js_trim (seg_text (segs ! i))))"
proof (induction n arbitrary: s)
  case 0
  then show ?case by simp
next
  case (Suc i)
  show ?case
  proof (cases "endsSentence (js_trim (seg_text (segs ! i)))")
    case True
    then show ?thesis by auto
  next
    case False
    let ?s' = "if i = 0 then 0 else s"
    have "i = 0 \<longrightarrow> ?s' = 0" by simp
    from Suc.IH [OF this] False show ?thesis
      by (auto simp: less_Suc_eq)
  qed
qed

lemma scanForward_bounds:
  "rest \<noteq> [] \<Longrightarrow> i \<le> scanForward rest i e \<and> scanForward rest i e < i + length rest"
proof (induction rest arbitrary: i e)
  case Nil
  then show ?case by simp
next
  case (Cons seg rest)
  show ?case
  proof (cases "rest = []")
    case True
    then show ?thesis by simp
  next
    case False
    from Cons.IH [OF this, of "i + 1" i] show ?thesis by auto
  qed
qed

lemma scanForward_before:
  "i \<le> j \<Longrightarrow> j < scanForward rest i e \<Longrightarrow> j - i < length rest \<Longrightarrow>
   \<not> endsSentence (js_trim (seg_text (rest ! (j - i))))"
proof (induction rest arbitrary: i e)
  case Nil
  then show ?case by simp
next
  case (Cons seg rest)
  show ?case
  proof (cases "j = i")
    case True
    with Cons.prems show ?thesis by (auto split: if_splits)
  next
    case False
    with Cons.prems have a: "i + 1 \<le> j" and b: "j < scanForward rest (i + 1) i"
      and c: "j - (i + 1) < length rest"
      by (auto split: if_splits)
    from Cons.IH [OF a b c] a show ?thesis
      by (simp add: nth_Cons')
  qed
qed

lemma scanForward_stop:
  "rest \<noteq> [] \<Longrightarrow>
   endsSentence (js_trim (seg_text (rest ! (scanForward rest i e - i)))) \<or>
   scanForward rest i e = i + length rest - 1"
proof (induction rest arbitrary: i e)
  case Nil
  then show ?case by simp
next
  case (Cons seg rest)
  show ?case
  proof (cases "endsSentence (js_trim (seg_text seg))")
    case True
    then show ?thesis by simp
  next
    case notEnd: False
    show ?thesis
    proof (cases "rest = []")
      case True
      with notEnd show ?thesis by simp
    next
      case False
      from scanForward_bounds [OF False, of "i + 1" i] have "i < scanForward rest (i + 1) i"
        by simp
      with Cons.IH [OF False, of "i + 1" i] notEnd show ?thesis
        by (auto simp: nth_Cons')
    qed
  qed
qed

lemma dropWhile_keeps_middle:
  "t \<noteq> [] \<Longrightarrow> \<not> P (hd t) \<Longrightarrow> \<exists>a'. dropWhile P (a @ t @ b) = a' @ t @ b"
proof (induction a)
  case Nil
  then have "dropWhile P (t @ b) = t @ b" by (cases t) auto
  then show ?case by auto
next
  case (Cons x a)
  then show ?case by (cases "P x") (auto intro: exI [of _ "x # a"])
qed

lemma js_trim_ends:
  "js_trim x = [] \<or> (\<not> js_isspace (hd (js_trim x)) \<and> \<not> js_isspace (last (js_trim x)))"
proof (cases "js_trim x = []")
  case True
  then show ?thesis by simp
next
  case False
  define d where "d = dropWhile js_isspace x"
  define e where "e = dropWhile js_isspace (rev d)"
  have t: "js_trim x = rev e" by (simp add: js_trim_def d_def e_def)
  with False have ne: "e \<noteq> []" by simp
  then have he: "\<not> js_isspace (hd e)" unfolding e_def by (metis hd_dropWhile)
  from ne have dne: "d \<noteq> []" unfolding e_def by auto
  then have hd: "\<not> js_isspace (hd d)" unfolding d_def by (metis hd_dropWhile)
  have "suffix e (rev d)" unfolding e_def by (rule suffix_dropWhile)
  with ne have "last e = last (rev d)" by (auto simp: suffix_def)
  with dne have "last e = hd d" by (simp add: last_rev)
  with he hd ne show ?thesis by (simp add: t hd_rev last_rev)
qed

lemma sublist_js_trim:
  assumes "sublist t y" and "t = [] \<or> (\<not> js_isspace (hd t) \<and> \<not> js_isspace (last t))"
  shows "sublist t (js_trim y)"
proof (cases "t = []")
  case True
  then show ?thesis by simp
next
  case False
  with assms(2) have h: "\<not> js_isspace (hd t)" and l: "\<not> js_isspace (last t)" by auto
  from assms(1) obtain a b where y: "y = a @ t @ b" by (auto simp: sublist_def)
  from dropWhile_keeps_middle [of t js_isspace a b, OF False h] obtain a' where
    1: "dropWhile js_isspace y = a' @ t @ b" unfolding y by blast
  have "rev t \<noteq> []" "\<not> js_isspace (hd (rev t))" using False l by (simp_all add: hd_rev)
  from dropWhile_keeps_middle [of "rev t" js_isspace "rev b" "rev a'", OF this] obtain b' where
    2: "dropWhile js_isspace (rev b @ rev t @ rev a') = b' @ rev t @ rev a'" by blast
  have "js_trim y = a' @ t @ rev b'"
    by (simp add: js_trim_def 1 2)
  then show ?thesis by (auto simp: sublist_def)
qed

lemma sublist_js_join: "x \<in> set parts \<Longrightarrow> sublist x (js_join sep parts)"
proof (induction sep parts rule: js_join.induct)
  case (1 sep)
  then show ?case by simp
next
  case (2 sep x)
  then show ?case by simp
next
  case (3 sep y z rest)
  show ?case
  proof (cases "x = y")
    case True
    then show ?thesis by (simp add: sublist_append)
  next
    case False
    with 3 have "sublist x (js_join sep (z # rest))" by simp
    then show ?thesis by (simp add: sublist_append)
  qed
qed

lemma sublist_trim_self: "sublist (js_trim x) x"
proof -
  have "suffix (dropWhile js_isspace x) x" by (rule suffix_dropWhile)
  moreover have "suffix (dropWhile js_isspace (rev (dropWhile js_isspace x))) (rev (dropWhile js_isspace x))"
    by (rule suffix_dropWhile)
  then have "prefix (js_trim x) (dropWhile js_isspace x)"
    by (simp add: js_trim_def suffix_to_prefix)
  ultimately show ?thesis
    by (meson prefix_imp_sublist suffix_imp_sublist sublist_order.order_trans)
qed

lemma cuesOrdered_nth:
  "cuesOrdered segments \<Longrightarrow> i \<le> j \<Longrightarrow> j < length segments \<Longrightarrow>
     seg_start (segments ! i) \<le> seg_start (segments ! j) \<and>
     seg_start (segments ! i) + seg_duration (segments ! i)
       \<le> seg_start (segments ! j) + seg_duration (segments ! j)"
  unfolding cuesOrdered_def
  using sorted_nth_mono [of "map seg_start segments" i j]
    sorted_nth_mono [of "map (\<lambda>c. seg_start c + seg_duration c) segments" i j]
  by simp

text \<open>
  C5, as the code has it. For a match index \<open>m\<close> inside a cue list,
  \<^const>\<open>detectSentenceBoundary\<close> returns a boundary built from two indices \<open>s \<le> m \<le> e\<close>: \<open>s\<close>
  follows the nearest cue before \<open>m\<close> whose trimmed text ends in a full stop, ! or ? (or
  is 0), \<open>e\<close> is the first cue from \<open>m\<close> on that ends so (or the last cue). The start time
  is the start of cue \<open>s\<close>, the end time the end of cue \<open>e\<close> plus 2, and the caption, the
  trimmed join of the texts of the cues \<open>s..e\<close>, contains the trimmed text of cue \<open>m\<close>.
  When the cues are ordered by start time and by end time, the interval contains the
  time range of cue \<open>m\<close>.
\<close>

theorem detectSentenceBoundary_closure:
  assumes m: "m < length segments"
  shows "\<exists>s e b. detectSentenceBoundary segments (int m) = Inr b \<and>
           s \<le> m \<and> m \<le> e \<and> e < length segments \<and>
           (s = 0 \<or> endsSentence (js_trim (seg_text (segments ! (s - 1))))) \<and>
           (\<forall>i. s \<le> i \<and> i < m \<longrightarrow> \<not> endsSentence (js_trim (seg_text (segments ! i)))) \<and>
           (\<forall>i. m \<le> i \<and> i < e \<longrightarrow> \<not> endsSentence (js_trim (seg_text (segments ! i)))) \<and>
           (endsSentence (js_trim (seg_text (segments ! e))) \<or> e = length segments - 1) \<and>
           startTime b = seg_start (segments ! s) \<and>
           endTime b = seg_start (segments ! e) + seg_duration (segments ! e) + 2 \<and>
           caption b = js_trim (js_join '' '' (map seg_text (take (e + 1 - s) (drop s segments)))) \<and>
           sublist (js_trim (seg_text (segments ! m))) (caption b) \<and>
           (cuesOrdered segments \<longrightarrow>
              startTime b \<le> seg_start (segments ! m) \<and>
              seg_start (segments ! m) + seg_duration (segments ! m) \<le> endTime b)"
proof -
  define s where "s = scanBackward segments m m"
  define e where "e = scanForward (drop m segments) m m"
  define b where "b = \<lparr> startTime = seg_start (segments ! s),
      endTime = seg_start (segments ! e) + seg_duration (segments ! e) + 2,
      caption = js_trim (js_join '' '' (map seg_text (take (e + 1 - s) (drop s segments)))) \<rparr>"
  have ne: "drop m segments \<noteq> []" using m by simp
  have det: "detectSentenceBoundary segments (int m) = Inr b"
    using m by (simp add: detectSentenceBoundary_def Let_def s_def e_def b_def)
  have sb: "s \<le> m" "s = 0 \<or> endsSentence (js_trim (seg_text (segments ! (s - 1))))"
    "\<forall>i. s \<le> i \<and> i < m \<longrightarrow> \<not> endsSentence (js_trim (seg_text (segments ! i)))"
    using scanBackward_spec [of m m segments] by (simp_all add: s_def)
  have eb: "m \<le> e" "e < length segments"
    using scanForward_bounds [OF ne, of m m] m by (simp_all add: e_def)
  have ebefore: "\<forall>i. m \<le> i \<and> i < e \<longrightarrow> \<not> endsSentence (js_trim (seg_text (segments ! i)))"
  proof (intro allI impI)
    fix i assume i: "m \<le> i \<and> i < e"
    with eb have "i - m < length (drop m segments)" by auto
    from scanForward_before [of m i "drop m segments" m, OF _ _ this] i
    show "\<not> endsSentence (js_trim (seg_text (segments ! i)))"
      using eb by (simp add: e_def)
  qed
  have estop: "endsSentence (js_trim (seg_text (segments ! e))) \<or> e = length segments - 1"
    using scanForward_stop [OF ne, of m m] eb m by (auto simp: e_def)
  have t1: "startTime b \<le> seg_start (segments ! m)" if "cuesOrdered segments"
    using cuesOrdered_nth [OF that sb(1) m] by (simp add: b_def)
  have t2: "seg_start (segments ! m) + seg_duration (segments ! m) \<le> endTime b"
    if "cuesOrdered segments"
    using cuesOrdered_nth [OF that eb] by (simp add: b_def)
  have "segments ! m \<in> set (take (e + 1 - s) (drop s segments))"
  proof -
    have "take (e + 1 - s) (drop s segments) ! (m - s) = segments ! m"
      using sb(1) eb by simp
    moreover have "m - s < length (take (e + 1 - s) (drop s segments))"
      using sb(1) eb by simp
    ultimately show ?thesis by (metis nth_mem)
  qed
  then have "sublist (seg_text (segments ! m))
      (js_join '' '' (map seg_text (take (e + 1 - s) (drop s segments))))"
    by (intro sublist_js_join) simp
  with sublist_trim_self have "sublist (js_trim (seg_text (segments ! m)))
      (js_join '' '' (map seg_text (take (e + 1 - s) (drop s segments))))"
    by (meson sublist_order.order_trans)
  then have sub: "sublist (js_trim (seg_text (segments ! m))) (caption b)"
    using js_trim_ends [of "seg_text (segments ! m)"] by (simp add: b_def sublist_js_trim)
  show ?thesis
    using det sb eb ebefore estop t1 t2 sub
    by (intro exI [of _ s] exI [of _ e] exI [of _ b]) (simp add: b_def)
qed

theorem detectSentenceBoundary_closure_witness:
  "\<exists>b. detectSentenceBoundary
     [\<lparr>seg_text = ''It works.'', seg_start = 0, seg_duration = 2\<rparr>,
      \<lparr>seg_text = ''Python is a'', seg_start = 2, seg_duration = 3\<rparr>,
      \<lparr>seg_text = ''language.'', seg_start = 5, seg_duration = 1\<rparr>,
      \<lparr>seg_text = ''Next.'', seg_start = 6, seg_duration = 1\<rparr>] 1 = Inr b \<and>
     startTime b \<le> 2 \<and> 5 \<le> endTime b \<and> sublist ''Python is a'' (caption b)"
proof -
  let ?segs = "[\<lparr>seg_text = ''It works.'', seg_start = 0, seg_duration = 2\<rparr>,
      \<lparr>seg_text = ''Python is a'', seg_start = 2, seg_duration = 3\<rparr>,
      \<lparr>seg_text = ''language.'', seg_start = 5, seg_duration = 1\<rparr>,
      \<lparr>seg_text = ''Next.'', seg_start = 6, seg_duration = (1::real)\<rparr>]"
  have m: "1 < length ?segs" by simp
  have ord: "cuesOrdered ?segs"
    by (simp add: cuesOrdered_def)
  have tr: "js_trim ''Python is a'' = ''Python is a''"
    by (simp add: js_trim_def js_isspace_def)
  from detectSentenceBoundary_closure [OF m] ord show ?thesis
    by (auto simp: tr)
qed

text \<open>
  C5 as stated, for every cue list, fails on a list that is not ordered and on a text with
  outer white space: with the second cue matched, the start time 10 lies after the start
  0 of the matched cue, the end time 3 before the end 11 of the first cue, and the
  caption \<^verbatim>\<open>a b\<close> does not contain the matched text \<^verbatim>\<open>b \<close> with its trailing space.
\<close>

theorem detectSentenceBoundary_counterexample:
  "detectSentenceBoundary
     [\<lparr>seg_text = ''a'', seg_start = 10, seg_duration = 1\<rparr>,
      \<lparr>seg_text = ''b '', seg_start = 0, seg_duration = 1\<rparr>] 1
   = Inr \<lparr>startTime = 10, endTime = 3, caption = ''a b''\<rparr> \<and>
   \<not> (10 :: real) \<le> seg_start \<lparr>seg_text = ''b '', seg_start = 0, seg_duration = 1\<rparr> \<and>
   \<not> sublist ''b '' ''a b''"
  by (simp add: detectSentenceBoundary_def endsSentence_def js_trim_def js_isspace_def
      sublist_Cons_right)

section \<open>Properties of the English gate\<close>


lemma distinct_commonEnglishWords: "distinct commonEnglishWords"
  by (simp add: commonEnglishWords_def)

lemma englishWordCount_card:
  "englishWordCount allText =
     card {w \<in> set commonEnglishWords.
             sublist ('' '' @ w @ '' '') allText \<or> prefix (w @ '' '') allText \<or>
             suffix ('' '' @ w) allText}"
proof -
  have "{w \<in> set commonEnglishWords.
             sublist ('' '' @ w @ '' '') allText \<or> prefix (w @ '' '') allText \<or>
             suffix ('' '' @ w) allText} = {w. wordPresent allText w} \<inter> set commonEnglishWords"
    by (auto simp: wordPresent_def js_includes_def js_startsWith_def js_endsWith_def)
  then show ?thesis
    by (simp add: englishWordCount_def distinct_length_filter [OF distinct_commonEnglishWords])
qed

lemma englishWordCount_empty: "englishWordCount [] = 0"
  by (simp add: englishWordCount_def wordPresent_def js_includes_def js_startsWith_def
      js_endsWith_def commonEnglishWords_def)

lemma nonLatinRatio_less:
  "allText \<noteq> [] \<Longrightarrow> nonLatinRatio allText < 0.2 \<longleftrightarrow> 5 * length (nonLatinChars allText) < length allText"
proof -
  assume ne: "allText \<noteq> []"
  then have pos: "0 < real (length allText)" by simp
  show ?thesis
  proof (cases "nonLatinChars allText = []")
    case True
    with ne show ?thesis by (simp add: nonLatinRatio_def)
  next
    case False
    have "real (length (nonLatinChars allText)) / real (length allText) < 0.2
          \<longleftrightarrow> 5 * real (length (nonLatinChars allText)) < real (length allText)"
      using pos by (simp add: field_simps)
    also have "\<dots> \<longleftrightarrow> 5 * length (nonLatinChars allText) < length allText"
      by (metis of_nat_less_iff of_nat_mult of_nat_numeral)
    finally show ?thesis using False by (simp add: nonLatinRatio_def)
  qed
qed

text \<open>
  C6, as the code has it. A transcription is accepted iff at least five different words
  of the list occur in the joined lower-case text, each between two spaces, or at the
  start before a space, or at the end after a space, and less than a fifth of the
  characters of that text are outside ASCII. Further occurrences of a word add nothing.
  A rejected transcription yields no result for its video, and the candidate loop goes on
  with the remaining videos.
\<close>

theorem isEnglishTranscription_distinct_words:
  "(isEnglishTranscription captions \<longleftrightarrow>
      5 \<le> card {w \<in> set commonEnglishWords.
                  sublist ('' '' @ w @ '' '') (js_toLowerCase (js_join '' '' (map seg_text captions))) \<or>
                  prefix (w @ '' '') (js_toLowerCase (js_join '' '' (map seg_text captions))) \<or>
                  suffix ('' '' @ w) (js_toLowerCase (js_join '' '' (map seg_text captions)))} \<and>
      5 * length (filter (\<lambda>c. 127 < (of_char c :: nat))
                    (js_toLowerCase (js_join '' '' (map seg_text captions))))
        < length (js_toLowerCase (js_join '' '' (map seg_text captions)))) \<and>
   (\<not> isEnglishTranscription captions \<and> cand_elapsedMs video \<le> JOB_TIMEOUT_MS \<and>
    cand_embeddable video = Some True \<and> cand_captions video = Some captions \<longrightarrow>
      processCaptions matcher (cand_videoId video) captions q t = None \<and>
      processVideos matcher q t n (video # videos) = processVideos matcher q t n videos)"
proof -
  define T where "T = js_toLowerCase (js_join '' '' (map seg_text captions))"
  have 1: "isEnglishTranscription captions \<longleftrightarrow>
      5 \<le> englishWordCount T \<and> 5 * length (nonLatinChars T) < length T"
  proof (cases "T = []")
    case True
    then show ?thesis
      by (simp add: isEnglishTranscription_def T_def [symmetric] englishWordCount_empty)
  next
    case False
    then have "captions \<noteq> []" by (auto simp: T_def js_toLowerCase_def)
    then have "isEnglishTranscription captions \<longleftrightarrow>
        5 \<le> englishWordCount T \<and> nonLatinRatio T < 0.2"
      by (simp add: isEnglishTranscription_def T_def [symmetric])
    with nonLatinRatio_less [OF False] show ?thesis
      by blast
  qed
  show ?thesis
    unfolding T_def [symmetric]
    using 1 by (simp add: englishWordCount_card nonLatinChars_def processCaptions_def)
qed


theorem isEnglishTranscription_distinct_words_witness:
  "processVideos (\<lambda>captions query queryType. 0) ''hola'' Word 1
     [\<lparr>cand_videoId = ''v1'', cand_elapsedMs = 0, cand_embeddable = Some True,
       cand_captions = Some [\<lparr>seg_text = ''hola mundo'', seg_start = 0, seg_duration = 1\<rparr>]\<rparr>]
   = JobFailed (NoEnglishVideoFound ''hola'' 1)"
proof -
  let ?captions = "[\<lparr>seg_text = ''hola mundo'', seg_start = 0, seg_duration = (1::real)\<rparr>]"
  let ?video = "\<lparr>cand_videoId = ''v1'', cand_elapsedMs = 0, cand_embeddable = Some True,
       cand_captions = Some ?captions\<rparr>"
  have rejected: "\<not> isEnglishTranscription ?captions"
    by code_simp
  have intime: "cand_elapsedMs ?video \<le> JOB_TIMEOUT_MS"
    by simp
  from isEnglishTranscription_distinct_words
         [of ?captions ?video "\<lambda>captions query queryType. 0" "''hola''" Word 1 "[]"]
       rejected intime
  show ?thesis
    by simp
qed

text \<open>
  C6 as stated counts occurrences. Six occurrences of one function word are at least five
  occurrences as isolated tokens, and nothing is outside ASCII, yet the code counts one
  word and rejects the transcription.
\<close>

theorem isEnglishTranscription_occurrences_counterexample:
  "spec_functionWordOccurrences ''the the the the the the'' = 6 \<and>
   spec_acceptsEnglish [\<lparr>seg_text = ''The the the the the the'', seg_start = 0, seg_duration = 1\<rparr>] \<and>
   englishWordCount ''the the the the the the'' = 1 \<and>
   \<not> isEnglishTranscription [\<lparr>seg_text = ''The the the the the the'', seg_start = 0, seg_duration = 1\<rparr>]"
  by code_simp


section \<open>Properties of the paywall\<close>


lemma js_or_None: "\<not> js_truthy a \<Longrightarrow> \<not> js_truthy b \<Longrightarrow> js_or a b = None \<or> js_or a b = Some []"
  by (auto simp: js_or_def js_truthy_def split: option.splits)

text \<open>
  C10. A request to POST /analyze/stream with no user id, neither a non-empty
  \<^verbatim>\<open>userId\<close> in the body nor a non-empty \<^verbatim>\<open>x-user-id\<close> header, is answered by the
  middleware with status 401 and code \<^verbatim>\<open>USER_ID_REQUIRED\<close>, whatever its other fields are;
  the handler and its validations do not run, and the usage table and the subscription
  cache are left as they were.
\<close>

theorem analyzeStream_user_id_required:
  "\<not> js_truthy (body_userId req) \<and> \<not> js_truthy (header_x_user_id req) \<longrightarrow>
     (\<exists>response. analyzeStreamRoute env faults tSub tCheck tInc st req = (Replied response, st) \<and>
        res_status response = 401 \<and>
        json_field (res_body response) ''code'' = Some (JStr ''USER_ID_REQUIRED''))"
proof
  assume "\<not> js_truthy (body_userId req) \<and> \<not> js_truthy (header_x_user_id req)"
  then have "js_or (body_userId req) (header_x_user_id req) = None \<or>
             js_or (body_userId req) (header_x_user_id req) = Some []"
    by (simp add: js_or_None)
  then show "\<exists>response. analyzeStreamRoute env faults tSub tCheck tInc st req = (Replied response, st) \<and>
        res_status response = 401 \<and>
        json_field (res_body response) ''code'' = Some (JStr ''USER_ID_REQUIRED'')"
    by (auto simp: analyzeStreamRoute_def aiPaywallMiddleware_def json_field_def)
qed


theorem analyzeStream_user_id_required_witness:
  "\<exists>response.
     analyzeStreamRoute
       \<lparr>apiKeySet = True, premiumEntitlementId = ''premium'', providerReply = FetchThrows\<rparr>
       \<lparr>checkThrows = False, incrementThrows = False\<rparr>
       1000 1000 1000
       \<lparr>usage = Map.empty, subCache = Map.empty\<rparr>
       \<lparr>body_userId = None, header_x_user_id = None, header_x_refresh_subscription = None,
        sentence = Falsy, targetWord = NonString, targetLanguage = Str ''xx'',
        nativeLanguage = Str ''en'', contextBefore = None, contextAfter = None\<rparr>
     = (Replied response, \<lparr>usage = Map.empty, subCache = Map.empty\<rparr>) \<and>
     res_status response = 401 \<and>
     json_field (res_body response) ''code'' = Some (JStr ''USER_ID_REQUIRED'')"
  using analyzeStream_user_id_required
    [of "\<lparr>body_userId = None, header_x_user_id = None, header_x_refresh_subscription = None,
        sentence = Falsy, targetWord = NonString, targetLanguage = Str ''xx'',
        nativeLanguage = Str ''en'', contextBefore = None, contextAfter = None\<rparr>"
       "\<lparr>apiKeySet = True, premiumEntitlementId = ''premium'', providerReply = FetchThrows\<rparr>"
       "\<lparr>checkThrows = False, incrementThrows = False\<rparr>"
       1000 1000 1000 "\<lparr>usage = Map.empty, subCache = Map.empty\<rparr>"]
  by (simp add: js_truthy_def)

lemma checkAiPaywall_free:
  "\<exists>p. checkAiPaywall False db t u False = Some p \<and>
       (allowed p \<longleftrightarrow> requestsInWindow db t u < 3) \<and>
       requestsUsed p = requestsInWindow db t u \<and>
       (\<not> allowed p \<longrightarrow> (\<exists>n. retryAfterSeconds p = Some n \<and> 0 < n))"
  by (auto simp: checkAiPaywall_def requestsInWindow_def windowDurationMs_def
      FREE_REQUESTS_WINDOW_MINUTES_def FREE_REQUESTS_LIMIT_def Let_def split: option.splits)





text \<open>
  When a call of the store throws, the middleware lets the request pass, whatever is
  counted for the user: without a header and with the table as it was when it is the
  check that throws, and with the headers of the check and the table as it was when it
  is the increment.
\<close>

lemma aiPaywallMiddleware_store_throws:
  assumes uid: "js_or (body_userId req) (header_x_user_id req) = Some u" and ne: "u \<noteq> []"
    and free: "\<not> isActive (fst (checkSubscription env tSub (subCache st) u
                       (header_x_refresh_subscription req = Some ''true'')))"
  shows "checkThrows faults \<longrightarrow>
           fst (aiPaywallMiddleware env faults tSub tCheck tInc st req) = Next Map.empty None \<and>
           usage (snd (aiPaywallMiddleware env faults tSub tCheck tInc st req)) = usage st"
    and "\<not> checkThrows faults \<and> incrementThrows faults \<and>
         requestsInWindow (usage st) tCheck u < 3 \<longrightarrow>
           (\<exists>h. fst (aiPaywallMiddleware env faults tSub tCheck tInc st req) = Next h None \<and>
                h ''X-Paywall-Requests-Used'' =
                  Some (nat_toString (requestsInWindow (usage st) tCheck u))) \<and>
           usage (snd (aiPaywallMiddleware env faults tSub tCheck tInc st req)) = usage st"
proof -
  obtain sub cache' where cs: "checkSubscription env tSub (subCache st) u
                       (header_x_refresh_subscription req = Some ''true'') = (sub, cache')"
    by (cases "checkSubscription env tSub (subCache st) u
                       (header_x_refresh_subscription req = Some ''true'')") auto
  obtain p where p: "checkAiPaywall False (usage st) tCheck u False = Some p"
    and allowed: "allowed p \<longleftrightarrow> requestsInWindow (usage st) tCheck u < 3"
    and used: "requestsUsed p = requestsInWindow (usage st) tCheck u"
    using checkAiPaywall_free [of "usage st" tCheck u] by blast
  show "checkThrows faults \<longrightarrow>
           fst (aiPaywallMiddleware env faults tSub tCheck tInc st req) = Next Map.empty None \<and>
           usage (snd (aiPaywallMiddleware env faults tSub tCheck tInc st req)) = usage st"
    using uid ne free cs by (simp add: aiPaywallMiddleware_def checkAiPaywall_def)
  show "\<not> checkThrows faults \<and> incrementThrows faults \<and>
         requestsInWindow (usage st) tCheck u < 3 \<longrightarrow>
           (\<exists>h. fst (aiPaywallMiddleware env faults tSub tCheck tInc st req) = Next h None \<and>
                h ''X-Paywall-Requests-Used'' =
                  Some (nat_toString (requestsInWindow (usage st) tCheck u))) \<and>
           usage (snd (aiPaywallMiddleware env faults tSub tCheck tInc st req)) = usage st"
    using uid ne free cs p allowed used
    by (simp add: aiPaywallMiddleware_def incrementAiUsage_def Let_def del: nat_toString.simps)
qed

section \<open>Provider errors and the quota\<close>

lemma checkSubscription_provider_error:
  "apiKeySet env \<Longrightarrow> cache u = None \<Longrightarrow>
   providerReply env = FetchThrows \<or> providerReply env = NotOk code \<Longrightarrow>
   checkSubscription env now cache u forceRefresh = (inactiveStatus, cache)"
  by (auto simp: checkSubscription_def Let_def fun_upd_idem)

lemma checkSubscription_caches_active_only:
  assumes "\<forall>k e. cache k = Some e \<longrightarrow> isActive (cached_status e)"
    and "snd (checkSubscription env now cache u forceRefresh) k = Some e"
  shows "isActive (cached_status e)"
  using assms
  by (auto simp: checkSubscription_def Let_def split: if_splits option.splits provider_reply.splits)

text \<open>
  C7, evaluated where it fails. The key is configured, nothing is cached for the user
  \<^verbatim>\<open>u\<close>, the provider answers with status 500, and \<^verbatim>\<open>u\<close> has used 3 requests in the
  current window. \<^const>\<open>checkSubscription\<close> returns the inactive status and caches nothing,
  but the request is not allowed: the middleware applies the free-tier quota to the
  inactive status and answers 403.
\<close>

theorem provider_error_denied:
  "checkSubscription
     \<lparr>apiKeySet = True, premiumEntitlementId = ''premium'', providerReply = NotOk 500\<rparr>
     1000 Map.empty ''u'' False = (inactiveStatus, Map.empty) \<and>
   (\<exists>r. aiPaywallMiddleware
          \<lparr>apiKeySet = True, premiumEntitlementId = ''premium'', providerReply = NotOk 500\<rparr>
          \<lparr>checkThrows = False, incrementThrows = False\<rparr>
          1000 1000 1000
          \<lparr>usage = [''u'' \<mapsto> \<lparr>requestCount = 3, windowStart = 0\<rparr>], subCache = Map.empty\<rparr>
          \<lparr>body_userId = Some ''u'', header_x_user_id = None,
           header_x_refresh_subscription = None\<rparr>
        = (Respond r,
           \<lparr>usage = [''u'' \<mapsto> \<lparr>requestCount = 3, windowStart = 0\<rparr>], subCache = Map.empty\<rparr>) \<and>
        res_status r = 403 \<and>
        json_field (res_body r) ''code'' = Some (JStr ''PAYWALL_LIMIT_EXCEEDED''))"
  by (simp add: aiPaywallMiddleware_def checkSubscription_def checkAiPaywall_def js_or_def
      js_truthy_def inactiveStatus_def json_field_def windowDurationMs_def
      FREE_REQUESTS_WINDOW_MINUTES_def FREE_REQUESTS_LIMIT_def Let_def
      del: nat_toString.simps)

section \<open>Properties of the search route\<close>


text \<open>
  C3, as the code has it. When the Result Store holds a segment under the hash of the
  canonical form of the query, a POST /search without a job id answers with status 200 and
  the body \<^verbatim>\<open>completed\<close>: the hash as job id, the canonical query, the video id, start time,
  end time, caption and captions of the stored segment, and the video URL rebuilt from the
  video id. The Job Store is returned as it was: no job is created for a worker to run.
\<close>

theorem search_cache_hit:
  assumes q: "req_query req = Some query"
    and canon: "normalizeQuery query = Inr \<lparr> normalized = canonical, type = kind \<rparr>"
    and nojob: "\<not> js_truthy (req_jobId req)"
    and stored: "findByHash store (generateHash canonical) = Some segment"
  shows "searchRoute generateHash db newId store jobs req =
           (\<lparr> res_status = 200, res_headers = Map.empty,
              res_body =
                JObj [(''status'', JStr ''completed''), (''jobId'', JStr (generateHash canonical)),
                      (''query'', JStr canonical),
                      (''videoId'', JStr (ve_videoId segment)),
                      (''videoUrl'', JStr (''https://www.youtube.com/watch?v='' @ ve_videoId segment)),
                      (''startTime'', JNum (ve_startTime segment)),
                      (''endTime'', JNum (ve_endTime segment)),
                      (''caption'', JStr (ve_caption segment)),
                      (''captions'', JArr (map captionSpanJson (ve_captions segment)))] \<rparr>,
            jobs)"
proof -
  from canon have "query \<noteq> []"
    by (auto simp: normalizeQuery_def js_trim_def Let_def split: if_splits)
  with q canon nojob stored show ?thesis
    by (simp add: searchRoute_def jsonResponse_def Let_def)
qed


theorem search_cache_hit_witness:
  "searchRoute (\<lambda>s. s) exampleDatabase ''123e4567-e89b-42d3-a456-426614174000''
     [''hello'' \<mapsto> \<lparr> ve_id = ''7c9e6679-7425-40de-944b-e07fc1f90ae7'', ve_hash = ''hello'', ve_query = ''hello'', ve_videoId = ''v1'',
                     ve_startTime = 0, ve_endTime = 3, ve_caption = ''Hello world.'',
                     ve_captions = [], ve_createdAt = 0 \<rparr>]
     [] \<lparr> req_query = Some ''HELLO '', req_jobId = None \<rparr>
   = (\<lparr> res_status = 200, res_headers = Map.empty,
        res_body =
          JObj [(''status'', JStr ''completed''), (''jobId'', JStr ''hello''),
                (''query'', JStr ''hello''), (''videoId'', JStr ''v1''),
                (''videoUrl'', JStr ''https://www.youtube.com/watch?v=v1''),
                (''startTime'', JNum 0), (''endTime'', JNum 3),
                (''caption'', JStr ''Hello world.''), (''captions'', JArr [])] \<rparr>,
      [])"
proof -
  let ?segment = "\<lparr> ve_id = ''7c9e6679-7425-40de-944b-e07fc1f90ae7'', ve_hash = ''hello'', ve_query = ''hello'', ve_videoId = ''v1'',
                     ve_startTime = 0, ve_endTime = 3, ve_caption = ''Hello world.'',
                     ve_captions = [], ve_createdAt = 0 \<rparr>"
  let ?req = "\<lparr> req_query = Some ''HELLO '', req_jobId = None \<rparr>"
  have q: "req_query ?req = Some ''HELLO ''"
    by simp
  have canon: "normalizeQuery ''HELLO '' = Inr \<lparr> normalized = ''hello'', type = Word \<rparr>"
    by code_simp
  have nojob: "\<not> js_truthy (req_jobId ?req)"
    by (simp add: js_truthy_def)
  have stored: "findByHash [''hello'' \<mapsto> ?segment] ((\<lambda>s. s) ''hello'') = Some ?segment"
    by (simp add: findByHash_def)
  from search_cache_hit [where generateHash = "\<lambda>s. s" and db = exampleDatabase
         and newId = "''123e4567-e89b-42d3-a456-426614174000''" and jobs = "[]",
         OF q canon nojob stored]
  show ?thesis
    by simp
qed

text \<open>
  C3 as stated, for every later POST /search with that query, fails for a request that also
  carries a job id, here a uuid: the handler then only looks the job up, and answers 404
  when there is none, although the segment is stored. The identity stands for the hash
  function, which this branch never calls.
\<close>

theorem search_with_jobId_counterexample:
  "findByHash
     [''hello'' \<mapsto> \<lparr> ve_id = ''7c9e6679-7425-40de-944b-e07fc1f90ae7'', ve_hash = ''hello'', ve_query = ''hello'', ve_videoId = ''v1'',
                     ve_startTime = 0, ve_endTime = 3, ve_caption = ''Hello world.'',
                     ve_captions = [], ve_createdAt = 0 \<rparr>] ''hello'' \<noteq> None \<and>
   normalizeQuery ''hello'' = Inr \<lparr> normalized = ''hello'', type = Word \<rparr> \<and>
   readUuid exampleDatabase ''0b5e7a3c-9d41-4f6e-8a27-c1d2e3f4a5b6''
     = Some ''0b5e7a3c-9d41-4f6e-8a27-c1d2e3f4a5b6'' \<and>
   searchRoute (\<lambda>s. s) exampleDatabase ''123e4567-e89b-42d3-a456-426614174000''
     [''hello'' \<mapsto> \<lparr> ve_id = ''7c9e6679-7425-40de-944b-e07fc1f90ae7'', ve_hash = ''hello'', ve_query = ''hello'', ve_videoId = ''v1'',
                     ve_startTime = 0, ve_endTime = 3, ve_caption = ''Hello world.'',
                     ve_captions = [], ve_createdAt = 0 \<rparr>]
     [] \<lparr> req_query = Some ''hello'',
          req_jobId = Some ''0b5e7a3c-9d41-4f6e-8a27-c1d2e3f4a5b6'' \<rparr>
   = (\<lparr> res_status = 404, res_headers = Map.empty,
        res_body = JObj [(''error'', JStr ''Job not found'')] \<rparr>, [])"
proof -
  have canon: "normalizeQuery ''hello'' = Inr \<lparr> normalized = ''hello'', type = Word \<rparr>"
    by code_simp
  have uuid: "readUuid exampleDatabase ''0b5e7a3c-9d41-4f6e-8a27-c1d2e3f4a5b6''
     = Some ''0b5e7a3c-9d41-4f6e-8a27-c1d2e3f4a5b6''"
    by code_simp
  show ?thesis
    by (simp add: canon uuid searchRoute_def findByHash_def findJobById_def js_truthy_def
        jsonResponse_def)
qed

text \<open>A job id that is no uuid to the database makes the look-up throw: the answer is 500
  with the message of the database.\<close>

lemma search_with_invalid_jobId:
  assumes "req_query req = Some query" and "query \<noteq> []"
    and "req_jobId req = Some jobId" and "jobId \<noteq> []"
    and "readUuid db jobId = None"
  shows "searchRoute generateHash db newId store jobs req =
           (errorResponse (faultMessage db (InvalidUuid jobId)), jobs)"
  using assms by (simp add: searchRoute_def findJobById_def js_truthy_def)

section \<open>Properties of the stream manager\<close>

subsection \<open>Association lists\<close>

lemma map_of_map_set: "map_of (map_set m k v) k' = (if k' = k then Some v else map_of m k')"
  by (induction m k v rule: map_set.induct) auto

lemma map_set_map_set: "map_set (map_set m k v) k v' = map_set m k v'"
  by (induction m k v rule: map_set.induct) auto

lemma map_set_same: "map_of m k = Some v \<Longrightarrow> map_set m k v = m"
  by (induction m k v rule: map_set.induct) (auto split: if_splits)

lemma map_delete_map_set: "map_delete (map_set m k v) k = map_delete m k"
  by (induction m k v rule: map_set.induct) (auto simp: map_delete_def)

lemma list_all_map_set: "list_all P m \<Longrightarrow> P (k, v) \<Longrightarrow> list_all P (map_set m k v)"
  by (induction m k v rule: map_set.induct) auto

lemma list_all_map_delete: "list_all P m \<Longrightarrow> list_all P (map_delete m k)"
  by (simp add: map_delete_def list_all_iff)

lemma list_all_fold_map_delete:
  "list_all P m \<Longrightarrow> list_all P (fold (\<lambda>k m. map_delete m k) ks m)"
  by (induction ks arbitrary: m) (simp_all add: list_all_map_delete)

lemma list_all_fold_map_delete_fst:
  "list_all P m \<Longrightarrow> list_all P (fold (\<lambda>entry m. map_delete m (fst entry)) es m)"
  by (induction es arbitrary: m) (simp_all add: list_all_map_delete)

lemma list_all_lookup: "list_all P m \<Longrightarrow> map_of m k = Some v \<Longrightarrow> P (k, v)"
  by (auto simp: list_all_iff dest: map_of_SomeD)

lemma list_all_mapI: "(\<And>x. x \<in> set xs \<Longrightarrow> P (f x)) \<Longrightarrow> list_all P (map f xs)"
  by (induction xs) auto

subsection \<open>Frames\<close>

lemma chunkTexts_append: "chunkTexts (a @ b) = chunkTexts a @ chunkTexts b"
  by (induction a rule: chunkTexts.induct) auto

lemma chunkTexts_write_chunk:
  "\<not> writableEnded conn \<Longrightarrow>
   chunkTexts (frames (res_write conn (ChunkFrame t))) = chunkTexts (frames conn) @ [t]"
  by (simp add: res_write_def chunkTexts_append)

lemma chunkTexts_write_done [simp]:
  "chunkTexts (frames (res_write conn (DoneFrame t))) = chunkTexts (frames conn)"
  by (simp add: res_write_def chunkTexts_append)

lemma chunkTexts_write_error [simp]:
  "chunkTexts (frames (res_write conn (ErrorFrame t))) = chunkTexts (frames conn)"
  by (simp add: res_write_def chunkTexts_append)

lemma res_write_flags [simp]:
  "writableEnded (res_write conn f) = writableEnded conn"
  "writeThrows (res_write conn f) = writeThrows conn"
  by (simp_all add: res_write_def)

lemma res_end_simps [simp]:
  "writableEnded (res_end conn)" "frames (res_end conn) = frames conn"
  "writeThrows (res_end conn) = writeThrows conn"
  by (simp_all add: res_end_def)

subsection \<open>The replay loop\<close>

declare replayLoop.simps [simp del]

text \<open>A run that starts with the first \<open>c\<close> chunks written ends as \<^const>\<open>exitConsistent\<close>
  says, leaves the flags of the response alone, and writes nothing it had written.\<close>

lemma replayLoop_consistent:
  "chunkTexts (frames conn) = take c (map chunk_text (chunks stream)) \<Longrightarrow>
   c \<le> length (chunks stream) \<Longrightarrow> tot \<le> length (chunks stream) \<Longrightarrow>
   exitConsistent (map chunk_text (chunks stream))
     (fst (replayLoop stream conn c tot)) (snd (replayLoop stream conn c tot)) \<and>
   writeThrows (fst (replayLoop stream conn c tot)) = writeThrows conn \<and>
   writableEnded (fst (replayLoop stream conn c tot)) = writableEnded conn \<and>
   length (chunkTexts (frames conn)) \<le> length (chunkTexts (frames (fst (replayLoop stream conn c tot))))"
proof (induction stream conn c tot rule: replayLoop.induct)
  case (1 stream conn c tot)
  let ?log = "map chunk_text (chunks stream)"
  show ?case
  proof (cases "c < tot")
    case inner: True
    show ?thesis
    proof (cases "writableEnded conn")
      case True
      with inner have eq: "replayLoop stream conn c tot = (conn, ReturnedEarly)"
        by (subst replayLoop.simps) simp
      from True show ?thesis
        by (simp add: eq exitConsistent_def)
    next
      case notEnded: False
      from inner "1.prems" have c: "c < length (chunks stream)" by simp
      show ?thesis
      proof (cases "writeThrows conn")
        case True
        with inner notEnded have eq: "replayLoop stream conn c tot = (conn, WriteFailed)"
          by (subst replayLoop.simps) auto
        from True show ?thesis
          by (simp add: eq exitConsistent_def)
      next
        case ok: False
        let ?conn' = "res_write conn (ChunkFrame (chunk_text (chunks stream ! c)))"
        have written: "chunkTexts (frames ?conn') = take (c + 1) ?log"
          using notEnded "1.prems"(1) c
          by (simp add: chunkTexts_write_chunk take_Suc_conv_app_nth)
        have longer: "length (chunkTexts (frames conn)) \<le> length (chunkTexts (frames ?conn'))"
          using notEnded by (simp add: chunkTexts_write_chunk)
        show ?thesis
        proof (cases "c + 1 < length (chunks stream)")
          case True
          with inner notEnded ok c have eq:
            "replayLoop stream conn c tot = (?conn', Suspended (AtChunkDelay c tot))"
            by (subst replayLoop.simps) (simp add: Let_def)
          from written True "1.prems"(3) longer show ?thesis
            by (simp add: eq exitConsistent_def)
        next
          case False
          have eq: "replayLoop stream conn c tot = replayLoop stream ?conn' (c + 1) tot"
            using inner notEnded ok c False by (subst replayLoop.simps) (simp add: Let_def)
          have "\<not> (length (chunks stream) \<le> c \<or> writeThrows conn)" using c ok by simp
          moreover have "c + 1 \<le> length (chunks stream)" using c by simp
          ultimately show ?thesis
            using "1.IH"(1) [OF inner notEnded _ refl False written _ "1.prems"(3)] longer
            by (simp add: eq)
        qed
      qed
    qed
  next
    case outer: False
    show ?thesis
    proof (cases "c \<ge> length (chunks stream)")
      case True
      with "1.prems" have len: "c = length (chunks stream)" by simp
      show ?thesis
      proof (cases "status stream = StreamCompleted \<or> status stream = StreamError")
        case True
        with outer len have eq: "replayLoop stream conn c tot = (conn, BrokeOut)"
          by (subst replayLoop.simps) auto
        show ?thesis
          unfolding eq using "1.prems" len by (simp add: exitConsistent_def)
      next
        case False
        with outer len have eq:
          "replayLoop stream conn c tot = (conn, Suspended (AtCatchUpDelay c))"
          by (subst replayLoop.simps) auto
        show ?thesis
          unfolding eq using "1.prems" len by (simp add: exitConsistent_def)
      qed
    next
      case False
      have eq: "replayLoop stream conn c tot = replayLoop stream conn c (length (chunks stream))"
        using outer False by (subst replayLoop.simps) simp
      from "1.IH"(2) [OF outer False "1.prems"(1,2)] show ?thesis
        by (simp add: eq)
    qed
  qed
qed

text \<open>A run that starts inside the chunk log writes at least one chunk, unless the write
  throws.\<close>

lemma replayLoop_progress:
  "chunkTexts (frames conn) = take c (map chunk_text (chunks stream)) \<Longrightarrow>
   c < length (chunks stream) \<Longrightarrow> tot \<le> length (chunks stream) \<Longrightarrow>
   \<not> writableEnded conn \<Longrightarrow> \<not> writeThrows conn \<Longrightarrow>
   length (chunkTexts (frames conn)) < length (chunkTexts (frames (fst (replayLoop stream conn c tot))))"
proof -
  assume sent: "chunkTexts (frames conn) = take c (map chunk_text (chunks stream))"
    and c: "c < length (chunks stream)" and tot: "tot \<le> length (chunks stream)"
    and notEnded: "\<not> writableEnded conn" and ok: "\<not> writeThrows conn"
  let ?log = "map chunk_text (chunks stream)"
  let ?conn' = "res_write conn (ChunkFrame (chunk_text (chunks stream ! c)))"
  have written: "chunkTexts (frames ?conn') = take (c + 1) ?log"
    using notEnded sent c by (simp add: chunkTexts_write_chunk take_Suc_conv_app_nth)
  have one: "length (chunkTexts (frames conn)) < length (chunkTexts (frames ?conn'))"
    using notEnded by (simp add: chunkTexts_write_chunk)
  have body: "length (chunkTexts (frames conn))
                < length (chunkTexts (frames (fst (replayLoop stream conn c t))))"
    if t: "c < t" "t \<le> length (chunks stream)" for t
  proof (cases "c + 1 < length (chunks stream)")
    case True
    with t notEnded ok c have eq:
      "replayLoop stream conn c t = (?conn', Suspended (AtChunkDelay c t))"
      by (subst replayLoop.simps) (simp add: Let_def)
    from one show ?thesis by (simp add: eq)
  next
    case False
    have eq: "replayLoop stream conn c t = replayLoop stream ?conn' (c + 1) t"
      using t notEnded ok c False by (subst replayLoop.simps) (simp add: Let_def)
    have "c + 1 \<le> length (chunks stream)" using c by simp
    from replayLoop_consistent [OF written this t(2)] one show ?thesis
      by (simp add: eq)
  qed
  show ?thesis
  proof (cases "c < tot")
    case True
    with tot show ?thesis by (intro body)
  next
    case False
    with c have eq: "replayLoop stream conn c tot = replayLoop stream conn c (length (chunks stream))"
      by (subst replayLoop.simps) simp
    from body [of "length (chunks stream)"] c show ?thesis
      by (simp add: eq)
  qed
qed

subsection \<open>Subscribers\<close>

lemma subscriberConsistent_publish:
  assumes "subscriberConsistent chunkLog sub"
  shows "subscriberConsistent (chunkLog @ [t])
           (if isReplaying sub \<or> writeThrows (res sub) then sub
            else sub\<lparr> res := res_write (res sub) (ChunkFrame t) \<rparr>)"
proof (cases "isReplaying sub")
  case True
  with assms show ?thesis
    by (auto simp: subscriberConsistent_def split: replay_task.splits)
next
  case False
  show ?thesis
  proof (cases "writeThrows (res sub) \<or> writableEnded (res sub)")
    case True
    with False assms show ?thesis
      by (auto simp: subscriberConsistent_def res_write_def)
  next
    case live: False
    with False assms have "chunkTexts (frames (res sub)) = chunkLog"
      by (auto simp: subscriberConsistent_def)
    with False live assms show ?thesis
      by (simp add: subscriberConsistent_def chunkTexts_write_chunk)
  qed
qed

lemma subscriberConsistent_final:
  assumes "subscriberConsistent chunkLog sub"
    and "\<And>conn. chunkTexts (frames (send conn)) = chunkTexts (frames conn)"
    and "\<And>conn. writableEnded (send conn)"
  shows "subscriberConsistent chunkLog
           (if isReplaying sub \<or> writeThrows (res sub) then sub else sub\<lparr> res := send (res sub) \<rparr>)"
  using assms by (auto simp: subscriberConsistent_def)

lemma subscriberConsistent_sendFinalFrame:
  assumes "subscriberConsistent chunkLog sub" and "\<And>t. frame \<noteq> ChunkFrame t"
  shows "subscriberConsistent chunkLog (sendFinalFrame sub frame)"
proof -
  have "chunkTexts (frames (res_write conn frame)) = chunkTexts (frames conn)" for conn
    using assms(2) by (cases frame) auto
  with assms(1) show ?thesis
    by (auto simp: subscriberConsistent_def sendFinalFrame_def)
qed

subsection \<open>Streams\<close>

lemma streamConsistent_lookup:
  "allConsistent streams \<Longrightarrow> map_of streams key = Some stream \<Longrightarrow> streamConsistent stream"
  using list_all_lookup [of "\<lambda>entry. streamConsistent (snd entry)" streams key stream] by simp

lemma subscriberConsistent_lookup:
  "streamConsistent stream \<Longrightarrow> map_of (subscribers stream) sid = Some sub \<Longrightarrow>
   subscriberConsistent (map chunk_text (chunks stream)) sub"
  unfolding streamConsistent_def
  using list_all_lookup
    [of "\<lambda>entry. subscriberConsistent (map chunk_text (chunks stream)) (snd entry)"
        "subscribers stream" sid sub]
  by simp

lemma streamConsistent_set:
  "streamConsistent stream \<Longrightarrow> subscriberConsistent (map chunk_text (chunks stream)) sub \<Longrightarrow>
   streamConsistent (stream\<lparr> subscribers := map_set (subscribers stream) sid sub \<rparr>)"
  by (simp add: streamConsistent_def list_all_map_set)

lemma streamConsistent_delete:
  "streamConsistent stream \<Longrightarrow>
   streamConsistent (stream\<lparr> subscribers := map_delete (subscribers stream) sid \<rparr>)"
  by (simp add: streamConsistent_def list_all_map_delete)

lemma list_all_broadcast:
  assumes "list_all (\<lambda>entry. P (snd entry)) subs"
    and "\<And>sub. P sub \<Longrightarrow>
           Q (if isReplaying sub \<or> writeThrows (res sub) then sub else sub\<lparr> res := send (res sub) \<rparr>)"
  shows "list_all (\<lambda>entry. Q (snd entry)) (broadcast send subs)"
proof -
  have "Q (snd (if isReplaying (snd entry) \<or> writeThrows (res (snd entry)) then entry
                  else (fst entry, (snd entry)\<lparr> res := send (res (snd entry)) \<rparr>)))"
    if "entry \<in> set subs" for entry
  proof -
    from that assms(1) have "P (snd entry)" by (simp add: list_all_iff)
    from assms(2) [OF this] show ?thesis
      by (cases "isReplaying (snd entry) \<or> writeThrows (res (snd entry))") auto
  qed
  then have "list_all (\<lambda>entry. Q (snd entry))
          (map (\<lambda>entry. if isReplaying (snd entry) \<or> writeThrows (res (snd entry)) then entry
                          else (fst entry, (snd entry)\<lparr> res := send (res (snd entry)) \<rparr>)) subs)"
    by (rule list_all_mapI)
  then show ?thesis
    unfolding broadcast_def by (rule list_all_fold_map_delete)
qed

subsection \<open>Replacing one subscriber\<close>

lemma map_of_setSubscriber:
  "map_of streams key = Some stream \<Longrightarrow>
   map_of (setSubscriber streams key sid sub) key =
     Some (stream\<lparr> subscribers := map_set (subscribers stream) sid sub \<rparr>)"
  by (simp add: setSubscriber_def map_of_map_set)

lemma setSubscriber_twice:
  "setSubscriber (setSubscriber streams key sid a) key sid b = setSubscriber streams key sid b"
  by (cases "map_of streams key")
     (simp_all add: setSubscriber_def map_of_map_set map_set_map_set)

lemma setSubscriber_same:
  "map_of streams key = Some stream \<Longrightarrow> map_of (subscribers stream) sid = Some sub \<Longrightarrow>
   setSubscriber streams key sid sub = streams"
  by (simp add: setSubscriber_def map_set_same)

lemma unsubscribe_setSubscriber:
  "unsubscribe (setSubscriber streams key sid a) key sid = unsubscribe streams key sid"
  by (cases "map_of streams key")
     (simp_all add: setSubscriber_def unsubscribe_def map_of_map_set map_set_map_set
        map_delete_map_set)

lemma consistent_setSubscriber:
  assumes "allConsistent streams"
    and "\<And>stream. map_of streams key = Some stream \<Longrightarrow>
           subscriberConsistent (map chunk_text (chunks stream)) sub"
  shows "allConsistent (setSubscriber streams key sid sub)"
proof (cases "map_of streams key")
  case None
  with assms(1) show ?thesis by (simp add: setSubscriber_def)
next
  case (Some stream)
  with assms have "streamConsistent (stream\<lparr> subscribers := map_set (subscribers stream) sid sub \<rparr>)"
    by (intro streamConsistent_set) (auto dest: streamConsistent_lookup)
  with assms(1) Some show ?thesis
    by (simp add: setSubscriber_def list_all_map_set)
qed

lemma consistent_unsubscribe:
  assumes "allConsistent streams"
  shows "allConsistent (unsubscribe streams key sid)"
proof (cases "map_of streams key")
  case None
  with assms show ?thesis by (simp add: unsubscribe_def)
next
  case (Some stream)
  with assms have "streamConsistent (stream\<lparr> subscribers := map_delete (subscribers stream) sid \<rparr>)"
    by (intro streamConsistent_delete) (auto dest: streamConsistent_lookup)
  with assms Some show ?thesis
    by (simp add: unsubscribe_def list_all_map_set)
qed

lemma consistent_sendCompletion:
  assumes "allConsistent streams"
  shows "allConsistent (sendCompletionToSubscriber streams key sid)"
proof -
  have "streamConsistent (stream\<lparr> subscribers := map_set (subscribers stream) sid
           (sendFinalFrame sub (DoneFrame (fullResponse stream))) \<rparr>)"
    if "map_of streams key = Some stream" "map_of (subscribers stream) sid = Some sub" for stream sub
    using that assms
    by (intro streamConsistent_set subscriberConsistent_sendFinalFrame)
       (auto dest: streamConsistent_lookup subscriberConsistent_lookup)
  with assms show ?thesis
    by (auto simp: sendCompletionToSubscriber_def list_all_map_set split: option.splits)
qed

lemma consistent_sendError:
  assumes "allConsistent streams"
  shows "allConsistent (sendErrorToSubscriber streams key sid err)"
proof -
  have "streamConsistent (stream\<lparr> subscribers := map_set (subscribers stream) sid
           (sendFinalFrame sub (ErrorFrame (errorMessageFor err))) \<rparr>)"
    if "map_of streams key = Some stream" "map_of (subscribers stream) sid = Some sub" for stream sub
    using that assms
    by (intro streamConsistent_set subscriberConsistent_sendFinalFrame)
       (auto dest: streamConsistent_lookup subscriberConsistent_lookup)
  with assms show ?thesis
    by (auto simp: sendErrorToSubscriber_def list_all_map_set split: option.splits)
qed

text \<open>The end of a replay, for a subscriber that was just put into the map with all
  chunks written.\<close>

lemma finishReplay_setSubscriber:
  assumes stream: "map_of streams key = Some stream"
  shows "finishReplay (setSubscriber streams key sid sub) key sid =
           (let streams1 = setSubscriber streams key sid
                             (sub\<lparr> isReplaying := False, replayTask := NoReplay \<rparr>)
            in if status stream = StreamCompleted
               then sendCompletionToSubscriber streams1 key sid
               else if status stream = StreamError
               then sendErrorToSubscriber streams1 key sid
                      (case error stream of
                         None \<Rightarrow> ''Unknown error''
                       | Some e \<Rightarrow> if e = [] then ''Unknown error'' else e)
               else streams1)"
  using stream
  by (simp add: finishReplay_def map_of_setSubscriber map_of_map_set setSubscriber_twice Let_def)

lemma consistent_finishReplay_set:
  assumes all: "allConsistent streams"
    and stream: "map_of streams key = Some stream"
    and caughtUp: "chunkTexts (frames (res sub)) = map chunk_text (chunks stream)"
  shows "allConsistent (finishReplay (setSubscriber streams key sid sub) key sid)"
proof -
  from caughtUp have "subscriberConsistent (map chunk_text (chunks stream))
            (sub\<lparr> isReplaying := False, replayTask := NoReplay \<rparr>)"
    by (simp add: subscriberConsistent_def)
  with all stream have "allConsistent (setSubscriber streams key sid
                             (sub\<lparr> isReplaying := False, replayTask := NoReplay \<rparr>))"
    by (intro consistent_setSubscriber) auto
  then show ?thesis
    by (simp add: finishReplay_setSubscriber [OF stream] Let_def
        consistent_sendCompletion consistent_sendError)
qed

subsection \<open>Looking a subscriber up\<close>

lemma map_of_map_delete: "map_of (map_delete m k) k' = (if k' = k then None else map_of m k')"
  by (induction m) (auto simp: map_delete_def)

lemma subscriberAt_setSubscriber:
  "map_of streams key = Some stream \<Longrightarrow>
   subscriberAt (setSubscriber streams key sid sub) key sid = Some sub"
  by (simp add: subscriberAt_def map_of_setSubscriber map_of_map_set)

lemma subscriberAt_unsubscribe: "subscriberAt (unsubscribe streams key sid) key sid = None"
  by (cases "map_of streams key")
     (simp_all add: subscriberAt_def unsubscribe_def map_of_map_set map_of_map_delete)

lemma isReplaying_sendFinalFrame [simp]:
  "isReplaying (sendFinalFrame sub frame) = isReplaying sub"
  by (simp add: sendFinalFrame_def)

lemma subscriberAt_sendCompletion:
  "subscriberAt streams key sid = Some sub \<Longrightarrow>
   \<exists>sub'. subscriberAt (sendCompletionToSubscriber streams key sid) key sid = Some sub' \<and>
          isReplaying sub' = isReplaying sub"
  by (auto simp: subscriberAt_def sendCompletionToSubscriber_def map_of_map_set
      split: option.splits)

lemma subscriberAt_sendError:
  "subscriberAt streams key sid = Some sub \<Longrightarrow>
   \<exists>sub'. subscriberAt (sendErrorToSubscriber streams key sid err) key sid = Some sub' \<and>
          isReplaying sub' = isReplaying sub"
  by (auto simp: subscriberAt_def sendErrorToSubscriber_def map_of_map_set
      split: option.splits)

lemma subscriberAt_finishReplay_set:
  assumes "map_of streams key = Some stream"
  shows "\<exists>sub'. subscriberAt (finishReplay (setSubscriber streams key sid sub) key sid) key sid
                   = Some sub' \<and> \<not> isReplaying sub'"
proof -
  let ?s1 = "setSubscriber streams key sid (sub\<lparr> isReplaying := False, replayTask := NoReplay \<rparr>)"
  have at: "subscriberAt ?s1 key sid = Some (sub\<lparr> isReplaying := False, replayTask := NoReplay \<rparr>)"
    using assms by (rule subscriberAt_setSubscriber)
  from subscriberAt_sendCompletion [OF at] subscriberAt_sendError [OF at] at
  show ?thesis
    by (auto simp: finishReplay_setSubscriber [OF assms] Let_def)
qed

subsection \<open>Running a replay\<close>

lemma replayLoop_subscribers [simp]:
  "replayLoop (stream\<lparr> subscribers := subs \<rparr>) conn c tot = replayLoop stream conn c tot"
proof (induction stream conn c tot rule: replayLoop.induct)
  case (1 stream conn c tot)
  show ?case
    by (subst replayLoop.simps, subst (2) replayLoop.simps) (use 1 in \<open>auto simp: Let_def\<close>)
qed

lemma runReplay_setSubscriber:
  assumes "map_of streams key = Some stream"
  shows "runReplay (setSubscriber streams key sid sub) key sid c tot =
           (case replayLoop stream (res sub) c tot of
              (conn, Suspended task) \<Rightarrow>
                setSubscriber streams key sid (sub\<lparr> res := conn, replayTask := task \<rparr>)
            | (conn, ReturnedEarly) \<Rightarrow>
                setSubscriber streams key sid (sub\<lparr> res := conn, replayTask := NoReplay \<rparr>)
            | (conn, WriteFailed) \<Rightarrow> unsubscribe streams key sid
            | (conn, BrokeOut) \<Rightarrow>
                finishReplay
                  (setSubscriber streams key sid (sub\<lparr> res := conn, replayTask := NoReplay \<rparr>))
                  key sid)"
  using assms
  by (simp add: runReplay_def map_of_setSubscriber map_of_map_set setSubscriber_twice
      unsubscribe_setSubscriber split: prod.splits replay_exit.splits)

text \<open>
  A replay run for a subscriber in replay mode on an open response, with the first \<open>c\<close>
  chunks written: the invariant holds afterwards, and when the run starts inside the log
  or the stream is no longer active, the subscriber has left replay mode, or was sent
  further chunks, or was removed because its writes throw.
\<close>

lemma runReplay_set:
  assumes all: "allConsistent streams"
    and stream: "map_of streams key = Some stream"
    and rep: "isReplaying sub" and notEnded: "\<not> writableEnded (res sub)"
    and sent: "chunkTexts (frames (res sub)) = take c (map chunk_text (chunks stream))"
    and c: "c \<le> length (chunks stream)" and tot: "tot \<le> length (chunks stream)"
  shows "allConsistent (runReplay (setSubscriber streams key sid sub) key sid c tot)"
    and "c < length (chunks stream) \<or> status stream \<noteq> StreamActive \<Longrightarrow>
         (case subscriberAt (runReplay (setSubscriber streams key sid sub) key sid c tot) key sid of
            None \<Rightarrow> writeThrows (res sub)
          | Some sub' \<Rightarrow> \<not> isReplaying sub' \<or>
              length (chunkTexts (frames (res sub))) < length (chunkTexts (frames (res sub'))))"
proof -
  let ?log = "map chunk_text (chunks stream)"
  obtain conn exit where run: "replayLoop stream (res sub) c tot = (conn, exit)"
    by (cases "replayLoop stream (res sub) c tot") auto
  from replayLoop_consistent [OF sent c tot] run
  have ex: "exitConsistent ?log conn exit" and throws: "writeThrows conn = writeThrows (res sub)"
    and ended: "writableEnded conn = writableEnded (res sub)"
    and len: "length (chunkTexts (frames (res sub))) \<le> length (chunkTexts (frames conn))"
    by simp_all
  have unfold: "runReplay (setSubscriber streams key sid sub) key sid c tot =
           (case exit of
              Suspended task \<Rightarrow>
                setSubscriber streams key sid (sub\<lparr> res := conn, replayTask := task \<rparr>)
            | ReturnedEarly \<Rightarrow>
                setSubscriber streams key sid (sub\<lparr> res := conn, replayTask := NoReplay \<rparr>)
            | WriteFailed \<Rightarrow> unsubscribe streams key sid
            | BrokeOut \<Rightarrow>
                finishReplay
                  (setSubscriber streams key sid (sub\<lparr> res := conn, replayTask := NoReplay \<rparr>))
                  key sid)"
    by (simp add: runReplay_setSubscriber [OF stream] run)
  from ex ended notEnded have notEarly: "exit \<noteq> ReturnedEarly"
    by (auto simp: exitConsistent_def)
  show "allConsistent (runReplay (setSubscriber streams key sid sub) key sid c tot)"
  proof (cases exit)
    case (Suspended task)
    with ex rep notEnded ended
    have "subscriberConsistent ?log (sub\<lparr> res := conn, replayTask := task \<rparr>)"
      by (auto simp: exitConsistent_def subscriberConsistent_def take_is_prefix
          split: replay_task.splits)
    with all stream have "allConsistent
        (setSubscriber streams key sid (sub\<lparr> res := conn, replayTask := task \<rparr>))"
      by (intro consistent_setSubscriber) auto
    with Suspended show ?thesis by (simp add: unfold)
  next
    case BrokeOut
    with ex have "chunkTexts (frames (res (sub\<lparr> res := conn, replayTask := NoReplay \<rparr>))) = ?log"
      by (simp add: exitConsistent_def)
    from consistent_finishReplay_set [OF all stream this] BrokeOut show ?thesis
      by (simp add: unfold)
  next
    case ReturnedEarly
    with notEarly show ?thesis by simp
  next
    case WriteFailed
    with all show ?thesis by (simp add: unfold consistent_unsubscribe)
  qed
  show "(case subscriberAt (runReplay (setSubscriber streams key sid sub) key sid c tot) key sid of
            None \<Rightarrow> writeThrows (res sub)
          | Some sub' \<Rightarrow> \<not> isReplaying sub' \<or>
              length (chunkTexts (frames (res sub))) < length (chunkTexts (frames (res sub'))))"
    if go: "c < length (chunks stream) \<or> status stream \<noteq> StreamActive"
  proof (cases exit)
    case (Suspended task)
    have "length (chunkTexts (frames (res sub))) < length (chunkTexts (frames conn))"
    proof (cases "c < length (chunks stream)")
      case True
      show ?thesis
      proof (cases "writeThrows (res sub)")
        case False
        from replayLoop_progress [OF sent True tot notEnded False] run show ?thesis by simp
      next
        case True
        have "snd (replayLoop stream (res sub) c tot) = WriteFailed"
        proof (cases "c < tot")
          case True
          with notEnded \<open>writeThrows (res sub)\<close> show ?thesis
            by (subst replayLoop.simps) simp
        next
          case False
          with \<open>c < length (chunks stream)\<close> notEnded \<open>writeThrows (res sub)\<close> show ?thesis
            by (subst replayLoop.simps, subst replayLoop.simps) simp
        qed
        with run Suspended show ?thesis by simp
      qed
    next
      case False
      with c go have atEnd: "c = length (chunks stream)" and fin: "status stream \<noteq> StreamActive"
        by auto
      then have "snd (replayLoop stream (res sub) c tot) = BrokeOut"
        using tot by (subst replayLoop.simps) (cases "status stream"; simp)
      with run Suspended show ?thesis by simp
    qed
    with Suspended stream show ?thesis
      by (simp add: unfold subscriberAt_setSubscriber)
  next
    case BrokeOut
    from subscriberAt_finishReplay_set [OF stream, of sid "sub\<lparr> res := conn, replayTask := NoReplay \<rparr>"]
      BrokeOut show ?thesis
      by (auto simp: unfold)
  next
    case ReturnedEarly
    with notEarly show ?thesis by simp
  next
    case WriteFailed
    with ex throws show ?thesis
      by (simp add: unfold subscriberAt_unsubscribe exitConsistent_def)
  qed
qed

subsection \<open>The continuation of a replay, and a new subscriber\<close>

lemma resumeReplay_steps:
  assumes all: "allConsistent streams"
  shows "allConsistent (resumeReplay streams key sid)"
    and "subscriberAt streams key sid = Some sub \<Longrightarrow> isReplaying sub \<Longrightarrow>
         (case subscriberAt (resumeReplay streams key sid) key sid of
            None \<Rightarrow> writeThrows (res sub)
          | Some sub' \<Rightarrow> \<not> isReplaying sub' \<or>
              length (chunkTexts (frames (res sub))) < length (chunkTexts (frames (res sub'))))"
proof -
  have both: "allConsistent (resumeReplay streams key sid) \<and>
       (case subscriberAt (resumeReplay streams key sid) key sid of
            None \<Rightarrow> writeThrows (res sub)
          | Some sub' \<Rightarrow> \<not> isReplaying sub' \<or>
              length (chunkTexts (frames (res sub))) < length (chunkTexts (frames (res sub'))))"
    if stream: "map_of streams key = Some stream"
      and sub: "map_of (subscribers stream) sid = Some sub" and rep: "isReplaying sub"
    for stream sub
  proof -
    let ?log = "map chunk_text (chunks stream)"
    from all stream sub have inv: "subscriberConsistent ?log sub"
      by (auto dest: streamConsistent_lookup subscriberConsistent_lookup)
    with rep have notEnded: "\<not> writableEnded (res sub)"
      by (simp add: subscriberConsistent_def)
    have same: "setSubscriber streams key sid sub = streams"
      using stream sub by (rule setSubscriber_same)
    show ?thesis
    proof (cases "replayTask sub")
      case NoReplay
      with inv rep show ?thesis by (simp add: subscriberConsistent_def)
    next
      case (AtChunkDelay c t)
      with inv rep have sent: "chunkTexts (frames (res sub)) = take (c + 1) ?log"
        and c: "c + 1 < length (chunks stream)" and t: "t \<le> length (chunks stream)"
        by (auto simp: subscriberConsistent_def)
      from c have c': "c + 1 \<le> length (chunks stream)" by simp
      from c have go: "c + 1 < length (chunks stream) \<or> status stream \<noteq> StreamActive" by simp
      from runReplay_set(1) [OF all stream rep notEnded sent c' t, of sid]
        runReplay_set(2) [OF all stream rep notEnded sent c' t go, of sid]
        stream sub AtChunkDelay
      show ?thesis
        by (simp add: resumeReplay_def same)
    next
      case (AtCatchUpDelay c)
      with inv rep have sent: "chunkTexts (frames (res sub)) = take c ?log"
        and c: "c \<le> length (chunks stream)"
        by (auto simp: subscriberConsistent_def)
      have tot: "length (chunks stream) \<le> length (chunks stream)" by simp
      show ?thesis
      proof (cases "c \<ge> length (chunks stream) \<and> status stream = StreamActive")
        case True
        with sent have caughtUp: "chunkTexts (frames (res sub)) = ?log" by simp
        from consistent_finishReplay_set [OF all stream caughtUp, of sid]
          subscriberAt_finishReplay_set [OF stream, of sid sub]
          stream sub AtCatchUpDelay True
        show ?thesis
          by (auto simp: resumeReplay_def same)
      next
        case False
        then have go: "c < length (chunks stream) \<or> status stream \<noteq> StreamActive" by auto
        from runReplay_set(1) [OF all stream rep notEnded sent c tot, of sid]
          runReplay_set(2) [OF all stream rep notEnded sent c tot go, of sid]
          stream sub AtCatchUpDelay False
        show ?thesis
          by (auto simp: resumeReplay_def same)
      qed
    qed
  qed
  show "allConsistent (resumeReplay streams key sid)"
  proof (cases "map_of streams key")
    case None
    with all show ?thesis by (simp add: resumeReplay_def)
  next
    case stream: (Some stream)
    show ?thesis
    proof (cases "map_of (subscribers stream) sid")
      case None
      with all stream show ?thesis by (simp add: resumeReplay_def)
    next
      case sub: (Some sub)
      show ?thesis
      proof (cases "isReplaying sub")
        case True
        with both [OF stream sub] show ?thesis by simp
      next
        case False
        with all stream sub have "replayTask sub = NoReplay"
          by (auto dest!: streamConsistent_lookup subscriberConsistent_lookup
              simp: subscriberConsistent_def)
        with all stream sub show ?thesis by (simp add: resumeReplay_def)
      qed
    qed
  qed
  show "(case subscriberAt (resumeReplay streams key sid) key sid of
            None \<Rightarrow> writeThrows (res sub)
          | Some sub' \<Rightarrow> \<not> isReplaying sub' \<or>
              length (chunkTexts (frames (res sub))) < length (chunkTexts (frames (res sub'))))"
    if "subscriberAt streams key sid = Some sub" "isReplaying sub"
    using that both [of _ sub]
    by (auto simp: subscriberAt_def split: option.splits)
qed

lemma consistent_subscribe:
  assumes all: "allConsistent streams"
    and ok: "subscribe streams key freshConnection sid now = Inr streams'"
  shows "allConsistent streams'"
proof (cases "map_of streams key")
  case None
  with ok show ?thesis by (simp add: subscribe_def)
next
  case stream: (Some stream)
  let ?log = "map chunk_text (chunks stream)"
  let ?sub = "\<lparr> sub_id = sid, res = freshConnection, joinedAt = now,
                isReplaying = (length (chunks stream) > 0), replayTask = NoReplay \<rparr>"
  let ?streams1 = "setSubscriber streams key sid ?sub"
  have lookup: "map_of ?streams1 key =
      Some (stream\<lparr> subscribers := map_set (subscribers stream) sid ?sub \<rparr>)"
    using stream by (rule map_of_setSubscriber)
  show ?thesis
  proof (cases "length (chunks stream) > 0")
    case True
    have "allConsistent (runReplay ?streams1 key sid 0 (length (chunks stream)))"
      using all stream
    proof (rule runReplay_set(1))
      show "isReplaying ?sub" using True by simp
      show "\<not> writableEnded (res ?sub)" by (simp add: freshConnection_def)
      show "chunkTexts (frames (res ?sub)) = take 0 ?log" by (simp add: freshConnection_def)
    qed simp_all
    with ok stream True lookup show ?thesis
      by (auto simp: subscribe_def Let_def replayChunksWithDelay_def)
  next
    case False
    then have "subscriberConsistent ?log ?sub"
      by (simp add: subscriberConsistent_def freshConnection_def)
    with all stream have "allConsistent ?streams1"
      by (intro consistent_setSubscriber) auto
    with ok stream False show ?thesis
      by (auto simp: subscribe_def Let_def consistent_sendCompletion consistent_sendError
          split: if_splits)
  qed
qed

lemma consistent_publishChunk:
  assumes all: "allConsistent streams"
  shows "allConsistent (publishChunk streams key chunk now)"
proof (cases "map_of streams key")
  case None
  with all show ?thesis by (simp add: publishChunk_def)
next
  case (Some stream)
  with all have "streamConsistent stream" by (rule streamConsistent_lookup)
  then have "list_all (\<lambda>entry. subscriberConsistent (map chunk_text (chunks stream) @ [chunk]) (snd entry))
          (broadcast (\<lambda>conn. res_write conn (ChunkFrame chunk)) (subscribers stream))"
    unfolding streamConsistent_def
    by (rule list_all_broadcast) (rule subscriberConsistent_publish)
  then have "streamConsistent
      (stream\<lparr> chunks := chunks stream
                  @ [\<lparr> chunk_text = chunk, chunk_timestamp = now - createdAt stream \<rparr>],
               fullResponse := fullResponse stream @ chunk,
               subscribers := broadcast (\<lambda>conn. res_write conn (ChunkFrame chunk))
                                (subscribers stream) \<rparr>)"
    by (simp add: streamConsistent_def)
  with all Some show ?thesis
    by (simp add: publishChunk_def list_all_map_set)
qed

lemma streamConsistent_final_broadcast:
  assumes "streamConsistent stream"
    and "\<And>conn. chunkTexts (frames (send conn)) = chunkTexts (frames conn)"
    and "\<And>conn. writableEnded (send conn)"
  shows "list_all (\<lambda>entry. subscriberConsistent (map chunk_text (chunks stream)) (snd entry))
           (broadcast send (subscribers stream))"
  using assms(1) unfolding streamConsistent_def
  by (rule list_all_broadcast) (rule subscriberConsistent_final [OF _ assms(2,3)])

lemma consistent_completeStream:
  assumes all: "allConsistent streams"
  shows "allConsistent (completeStream streams key)"
proof (cases "map_of streams key")
  case None
  with all show ?thesis by (simp add: completeStream_def)
next
  case (Some stream)
  with all have "streamConsistent stream" by (rule streamConsistent_lookup)
  then have "list_all (\<lambda>entry. subscriberConsistent (map chunk_text (chunks stream)) (snd entry))
          (broadcast (\<lambda>conn. res_end (res_write conn (DoneFrame (fullResponse stream))))
             (subscribers stream))"
    by (rule streamConsistent_final_broadcast) simp_all
  then have "streamConsistent
      (stream\<lparr> status := StreamCompleted,
               subscribers := broadcast
                  (\<lambda>conn. res_end (res_write conn (DoneFrame (fullResponse stream))))
                  (subscribers stream) \<rparr>)"
    by (simp add: streamConsistent_def)
  with all Some show ?thesis
    by (simp add: completeStream_def list_all_map_set)
qed

lemma consistent_errorStream:
  assumes all: "allConsistent streams"
  shows "allConsistent (errorStream streams key err)"
proof (cases "map_of streams key")
  case None
  with all show ?thesis by (simp add: errorStream_def)
next
  case (Some stream)
  with all have "streamConsistent stream" by (rule streamConsistent_lookup)
  then have "list_all (\<lambda>entry. subscriberConsistent (map chunk_text (chunks stream)) (snd entry))
          (broadcast (\<lambda>conn. res_end (res_write conn (ErrorFrame (errorMessageFor err))))
             (subscribers stream))"
    by (rule streamConsistent_final_broadcast) simp_all
  then have "streamConsistent
      (stream\<lparr> status := StreamError, error := Some err,
               subscribers := broadcast
                  (\<lambda>conn. res_end (res_write conn (ErrorFrame (errorMessageFor err))))
                  (subscribers stream) \<rparr>)"
    by (simp add: streamConsistent_def)
  with all Some show ?thesis
    by (simp add: errorStream_def list_all_map_set)
qed

lemma consistent_cleanupTimer:
  "allConsistent streams \<Longrightarrow> allConsistent (cleanupTimer streams key)"
  by (simp add: cleanupTimer_def list_all_map_delete split: option.splits)

lemma consistent_errorCleanupTimer:
  "allConsistent streams \<Longrightarrow> allConsistent (errorCleanupTimer streams key)"
  by (simp add: errorCleanupTimer_def list_all_map_delete)

lemma consistent_createStream:
  assumes "allConsistent streams"
  shows "allConsistent (createStream streams key streamParams now)"
proof -
  have "allConsistent (cleanupOldestCompletedStreams streams)"
    using assms by (simp add: cleanupOldestCompletedStreams_def Let_def list_all_fold_map_delete_fst)
  with assms show ?thesis
    by (simp add: createStream_def Let_def list_all_map_set streamConsistent_def)
qed

lemma consistent_startStream:
  assumes "allConsistent streams" and "startStream streams key streamParams = Inr (streams', calls)"
  shows "allConsistent streams'"
proof (cases "map_of streams key")
  case None
  with assms show ?thesis by (simp add: startStream_def)
next
  case (Some stream)
  with assms(1) have "streamConsistent stream" by (rule streamConsistent_lookup)
  then have "streamConsistent (stream\<lparr> apiCallPromise := Some Promise \<rparr>)"
    by (simp add: streamConsistent_def)
  with assms Some show ?thesis
    by (auto simp: startStream_def list_all_map_set split: option.splits)
qed

lemma consistent_getOrCreateStream:
  assumes "allConsistent streams"
  shows "allConsistent (fst (getOrCreateStream streams key streamParams now))"
proof (cases "map_of streams key")
  case (Some stream)
  with assms show ?thesis by (simp add: getOrCreateStream_def)
next
  case None
  from assms have 1: "allConsistent (createStream streams key streamParams now)"
    by (rule consistent_createStream)
  show ?thesis
  proof (cases "startStream (createStream streams key streamParams now) key streamParams")
    case (Inl err)
    with None 1 show ?thesis by (simp add: getOrCreateStream_def Let_def)
  next
    case (Inr started)
    with consistent_startStream [OF 1, of key streamParams "fst started" "snd started"]
    have "allConsistent (fst started)" by simp
    with None Inr show ?thesis by (simp add: getOrCreateStream_def Let_def)
  qed
qed

lemma consistent_breakConnection:
  assumes all: "allConsistent streams"
  shows "allConsistent (breakConnection streams key sid)"
proof (cases "map_of streams key")
  case None
  with all show ?thesis by (simp add: breakConnection_def)
next
  case stream: (Some stream)
  show ?thesis
  proof (cases "map_of (subscribers stream) sid")
    case None
    with all stream show ?thesis by (simp add: breakConnection_def)
  next
    case (Some sub)
    with all stream have "subscriberConsistent (map chunk_text (chunks stream)) sub"
      by (auto dest: streamConsistent_lookup subscriberConsistent_lookup)
    then have "subscriberConsistent (map chunk_text (chunks stream))
                 (sub\<lparr> res := (res sub)\<lparr> writeThrows := True \<rparr> \<rparr>)"
      by (auto simp: subscriberConsistent_def split: replay_task.splits)
    with all stream have "allConsistent
        (setSubscriber streams key sid (sub\<lparr> res := (res sub)\<lparr> writeThrows := True \<rparr> \<rparr>))"
      by (intro consistent_setSubscriber) auto
    with stream Some show ?thesis by (simp add: breakConnection_def)
  qed
qed

lemma reachable_consistent: "reachable streams \<Longrightarrow> allConsistent streams"
proof (induction rule: reachable.induct)
  case reach_start
  show ?case by simp
next
  case (reach_getOrCreate streams key streamParams now)
  then show ?case by (simp add: consistent_getOrCreateStream)
next
  case (reach_startStream streams key streamParams streams' calls)
  then show ?case by (auto intro: consistent_startStream)
next
  case (reach_subscribe streams key subscriberId now streams')
  then show ?case by (auto intro: consistent_subscribe)
next
  case (reach_unsubscribe streams key subscriberId)
  then show ?case by (simp add: consistent_unsubscribe)
next
  case (reach_publishChunk streams key chunk now)
  then show ?case by (simp add: consistent_publishChunk)
next
  case (reach_completeStream streams key)
  then show ?case by (simp add: consistent_completeStream)
next
  case (reach_errorStream streams key err)
  then show ?case by (simp add: consistent_errorStream)
next
  case (reach_resumeReplay streams key subscriberId)
  then show ?case by (simp add: resumeReplay_steps(1))
next
  case (reach_cleanupTimer streams key)
  then show ?case by (simp add: consistent_cleanupTimer)
next
  case (reach_errorCleanupTimer streams key)
  then show ?case by (simp add: consistent_errorCleanupTimer)
next
  case (reach_breakConnection streams key subscriberId)
  then show ?case by (simp add: consistent_breakConnection)
qed

text \<open>
  The part of C1 that holds, for a subscriber while its stream is in the map. In every
  state the manager can reach, for every subscriber of every stream in its map: the
  chunks written to the subscriber's response are an initial part of the chunk log of
  the stream, in the order of the log and each once; once the subscriber has left replay
  mode, on a response that is open and takes writes, they are the whole log; and while
  it is in replay mode its response is open and a continuation of its replay is pending.
  Running that continuation takes the subscriber out of replay mode or writes further
  chunks to it, and removes it only when writes on its response throw.
\<close>

theorem replay_to_live_delivery:
  assumes "reachable streams"
    and "(key, stream) \<in> set streams"
    and "(subscriberId, subscriber) \<in> set (subscribers stream)"
  shows "prefix (chunkTexts (frames (res subscriber))) (map chunk_text (chunks stream)) \<and>
         (\<not> isReplaying subscriber \<and> \<not> writableEnded (res subscriber) \<and>
          \<not> writeThrows (res subscriber) \<longrightarrow>
            chunkTexts (frames (res subscriber)) = map chunk_text (chunks stream)) \<and>
         (isReplaying subscriber \<longrightarrow>
            replayTask subscriber \<noteq> NoReplay \<and> \<not> writableEnded (res subscriber)) \<and>
         (isReplaying subscriber \<and> subscriberAt streams key subscriberId = Some subscriber \<longrightarrow>
            (case subscriberAt (resumeReplay streams key subscriberId) key subscriberId of
               None \<Rightarrow> writeThrows (res subscriber)
             | Some later \<Rightarrow>
                 \<not> isReplaying later \<or>
                 length (chunkTexts (frames (res subscriber)))
                   < length (chunkTexts (frames (res later)))))"
proof -
  from assms(1) have all: "allConsistent streams" by (rule reachable_consistent)
  with assms(2) have "streamConsistent stream" by (auto simp: list_all_iff)
  with assms(3) have "subscriberConsistent (map chunk_text (chunks stream)) subscriber"
    by (auto simp: streamConsistent_def list_all_iff)
  then have "prefix (chunkTexts (frames (res subscriber))) (map chunk_text (chunks stream))"
    and "\<not> isReplaying subscriber \<and> \<not> writableEnded (res subscriber) \<and>
          \<not> writeThrows (res subscriber) \<longrightarrow>
            chunkTexts (frames (res subscriber)) = map chunk_text (chunks stream)"
    and "isReplaying subscriber \<longrightarrow>
            replayTask subscriber \<noteq> NoReplay \<and> \<not> writableEnded (res subscriber)"
    by (auto simp: subscriberConsistent_def)
  with resumeReplay_steps(2) [OF all, of key subscriberId subscriber] show ?thesis
    by blast
qed

theorem replay_to_live_delivery_witness:
  "\<exists>streams stream subscriber later streams' stream' subscriber'.
     reachable streams \<and> (''k'', stream) \<in> set streams \<and>
     (''B'', subscriber) \<in> set (subscribers stream) \<and>
     map chunk_text (chunks stream) = [''c0'', ''c1'', ''c2''] \<and>
     isReplaying subscriber \<and> replayTask subscriber = AtChunkDelay 0 2 \<and>
     frames (res subscriber) = [ChunkFrame ''c0''] \<and>
     subscriberAt streams ''k'' ''B'' = Some subscriber \<and>
     subscriberAt (resumeReplay streams ''k'' ''B'') ''k'' ''B'' = Some later \<and>
     isReplaying later \<and> frames (res later) = [ChunkFrame ''c0'', ChunkFrame ''c1''] \<and>
     length (chunkTexts (frames (res subscriber))) < length (chunkTexts (frames (res later))) \<and>
     reachable streams' \<and> (''k'', stream') \<in> set streams' \<and>
     (''B'', subscriber') \<in> set (subscribers stream') \<and>
     map chunk_text (chunks stream') = [''c0'', ''c1'', ''c2'', ''c3''] \<and>
     \<not> isReplaying subscriber' \<and> \<not> writableEnded (res subscriber') \<and>
     \<not> writeThrows (res subscriber') \<and>
     frames (res subscriber') =
       [ChunkFrame ''c0'', ChunkFrame ''c1'', ChunkFrame ''c2'', ChunkFrame ''c3''] \<and>
     chunkTexts (frames (res subscriber')) = map chunk_text (chunks stream')"
proof -
  let ?p = "\<lparr> sp_sentence = ''s'', sp_targetWord = ''w'', sp_targetLanguage = ''fr'',
       sp_nativeLanguage = ''en'', sp_contextBefore = None, sp_contextAfter = None \<rparr>"
  let ?s1 = "fst (getOrCreateStream [] ''k'' ?p 0)"
  let ?s2 = "publishChunk (publishChunk ?s1 ''k'' ''c0'' 10) ''k'' ''c1'' 20"
  let ?s3 = "case subscribe ?s2 ''k'' freshConnection ''B'' 25 of Inr s \<Rightarrow> s | Inl e \<Rightarrow> []"
  let ?s4 = "publishChunk ?s3 ''k'' ''c2'' 30"
  let ?s5 = "resumeReplay (resumeReplay (resumeReplay ?s4 ''k'' ''B'') ''k'' ''B'') ''k'' ''B''"
  let ?s6 = "publishChunk ?s5 ''k'' ''c3'' 40"
  let ?c0 = "\<lparr> chunk_text = ''c0'', chunk_timestamp = 10 \<rparr>"
  let ?c1 = "\<lparr> chunk_text = ''c1'', chunk_timestamp = 20 \<rparr>"
  let ?c2 = "\<lparr> chunk_text = ''c2'', chunk_timestamp = 30 \<rparr>"
  let ?c3 = "\<lparr> chunk_text = ''c3'', chunk_timestamp = 40 \<rparr>"
  let ?A = "\<lparr> sub_id = ''B'',
             res = \<lparr> frames = [ChunkFrame ''c0''], writableEnded = False, writeThrows = False \<rparr>,
             joinedAt = 25, isReplaying = True, replayTask = AtChunkDelay 0 2 \<rparr>"
  let ?L = "\<lparr> sub_id = ''B'',
             res = \<lparr> frames = [ChunkFrame ''c0'', ChunkFrame ''c1''],
                     writableEnded = False, writeThrows = False \<rparr>,
             joinedAt = 25, isReplaying = True, replayTask = AtChunkDelay 1 2 \<rparr>"
  let ?B = "\<lparr> sub_id = ''B'',
             res = \<lparr> frames = [ChunkFrame ''c0'', ChunkFrame ''c1'', ChunkFrame ''c2'', ChunkFrame ''c3''],
                     writableEnded = False, writeThrows = False \<rparr>,
             joinedAt = 25, isReplaying = False, replayTask = NoReplay \<rparr>"
  let ?mid = "\<lparr> cacheKey = ''k'', params = ?p, subscribers = [(''B'', ?A)],
       chunks = [?c0, ?c1, ?c2],
       fullResponse = ''c0c1c2'', status = StreamActive, error = None, createdAt = 0,
       apiCallPromise = Some Promise \<rparr>"
  let ?stream = "\<lparr> cacheKey = ''k'', params = ?p, subscribers = [(''B'', ?B)],
       chunks = [?c0, ?c1, ?c2, ?c3],
       fullResponse = ''c0c1c2c3'', status = StreamActive, error = None, createdAt = 0,
       apiCallPromise = Some Promise \<rparr>"
  have r2: "reachable ?s2"
    by (intro reach_publishChunk reach_getOrCreate reach_start)
  have "map_option subscribers (map_of ?s2 ''k'') = Some []"
    by code_simp
  then have fresh: "\<forall>stream. map_of ?s2 ''k'' = Some stream \<longrightarrow> map_of (subscribers stream) ''B'' = None"
    by auto
  have joined: "subscribe ?s2 ''k'' freshConnection ''B'' 25 = Inr ?s3"
    by code_simp
  from r2 fresh joined have r3: "reachable ?s3"
    by (rule reach_subscribe)
  then have r4: "reachable ?s4"
    by (rule reach_publishChunk)
  have r6: "reachable ?s6"
    by (rule reach_publishChunk, (rule reach_resumeReplay)+) (rule r4)
  have s4: "?s4 = [(''k'', ?mid)]"
    by code_simp
  have s6: "?s6 = [(''k'', ?stream)]"
    by code_simp
  have at: "subscriberAt [(''k'', ?mid)] ''k'' ''B'' = Some ?A"
    by code_simp
  have later: "subscriberAt (resumeReplay [(''k'', ?mid)] ''k'' ''B'') ''k'' ''B'' = Some ?L"
    by code_simp
  from r4 s4 have rm: "reachable [(''k'', ?mid)]" by simp
  from r6 s6 have rf: "reachable [(''k'', ?stream)]" by simp
  have m1: "(''k'', ?mid) \<in> set [(''k'', ?mid)]" by simp
  have m2: "(''B'', ?A) \<in> set (subscribers ?mid)" by simp
  have f1: "(''k'', ?stream) \<in> set [(''k'', ?stream)]" by simp
  have f2: "(''B'', ?B) \<in> set (subscribers ?stream)" by simp
  from replay_to_live_delivery [OF rm m1 m2] at later
  have grown: "length (chunkTexts (frames (res ?A))) < length (chunkTexts (frames (res ?L)))"
    by simp
  from replay_to_live_delivery [OF rf f1 f2]
  have whole: "chunkTexts (frames (res ?B)) = map chunk_text (chunks ?stream)"
    by simp
  from rm at later grown rf whole show ?thesis
    by (intro exI [of _ "[(''k'', ?mid)]"] exI [of _ ?mid] exI [of _ ?A] exI [of _ ?L]
          exI [of _ "[(''k'', ?stream)]"] exI [of _ ?stream] exI [of _ ?B]) simp
qed

subsection \<open>The upstream call\<close>

lemma shape_map_set:
  "map_of streams key = Some stream \<Longrightarrow> cacheKey stream' = cacheKey stream \<Longrightarrow>
   apiCallPromise stream' = apiCallPromise stream \<Longrightarrow>
   registryShape (map_set streams key stream') = registryShape streams"
  by (induction streams key stream' rule: map_set.induct) (auto simp: registryShape_def)

lemma shape_setSubscriber [simp]:
  "registryShape (setSubscriber streams key sid sub) = registryShape streams"
  by (simp add: setSubscriber_def shape_map_set split: option.splits)

lemma shape_unsubscribe [simp]:
  "registryShape (unsubscribe streams key sid) = registryShape streams"
  by (simp add: unsubscribe_def shape_map_set split: option.splits)

lemma shape_sendCompletion [simp]:
  "registryShape (sendCompletionToSubscriber streams key sid) = registryShape streams"
  by (simp add: sendCompletionToSubscriber_def shape_map_set split: option.splits)

lemma shape_sendError [simp]:
  "registryShape (sendErrorToSubscriber streams key sid err) = registryShape streams"
  by (simp add: sendErrorToSubscriber_def shape_map_set split: option.splits)

lemma shape_finishReplay [simp]:
  "registryShape (finishReplay streams key sid) = registryShape streams"
  by (simp add: finishReplay_def Let_def split: option.splits)

lemma shape_runReplay [simp]:
  "registryShape (runReplay streams key sid c tot) = registryShape streams"
  by (simp add: runReplay_def split: option.splits prod.splits replay_exit.splits)

lemma shape_resumeReplay [simp]:
  "registryShape (resumeReplay streams key sid) = registryShape streams"
  by (simp add: resumeReplay_def split: option.splits replay_task.splits)

lemma shape_subscribe:
  "subscribe streams key conn sid now = Inr streams' \<Longrightarrow>
   registryShape streams' = registryShape streams"
  by (auto simp: subscribe_def Let_def replayChunksWithDelay_def map_of_setSubscriber
      split: option.splits if_splits)

lemma shape_publishChunk [simp]:
  "registryShape (publishChunk streams key chunk now) = registryShape streams"
  by (simp add: publishChunk_def shape_map_set split: option.splits)

lemma shape_completeStream [simp]:
  "registryShape (completeStream streams key) = registryShape streams"
  by (simp add: completeStream_def shape_map_set split: option.splits)

lemma shape_errorStream [simp]:
  "registryShape (errorStream streams key err) = registryShape streams"
  by (simp add: errorStream_def shape_map_set split: option.splits)

lemma shape_breakConnection [simp]:
  "registryShape (breakConnection streams key sid) = registryShape streams"
  by (simp add: breakConnection_def split: option.splits)

lemma shape_map_delete:
  "registryShape (map_delete streams key) = filter (\<lambda>e. fst e \<noteq> key) (registryShape streams)"
  by (simp add: registryShape_def map_delete_def filter_map o_def)

lemma shapeOk_filter: "shapeOk sh \<Longrightarrow> shapeOk (filter P sh)"
  by (simp add: shapeOk_def distinct_map_filter list_all_iff)

lemma shapeOk_map_delete:
  "shapeOk (registryShape streams) \<Longrightarrow> shapeOk (registryShape (map_delete streams key))"
  by (simp add: shape_map_delete shapeOk_filter)

lemma shapeOk_fold_delete:
  "shapeOk (registryShape streams) \<Longrightarrow>
   shapeOk (registryShape (fold (\<lambda>entry m. map_delete m (fst entry)) es streams))"
  by (induction es arbitrary: streams) (simp_all add: shapeOk_map_delete)

lemma fst_set_map_set: "fst ` set (map_set m k v) = insert k (fst ` set m)"
  by (induction m k v rule: map_set.induct) auto

lemma distinct_map_set: "distinct (map fst m) \<Longrightarrow> distinct (map fst (map_set m k v))"
  by (induction m k v rule: map_set.induct) (auto simp: fst_set_map_set)

lemma shapeOk_map_set:
  assumes "shapeOk (registryShape streams)" and "cacheKey stream = key"
    and "apiCallPromise stream = Some Promise"
  shows "shapeOk (registryShape (map_set streams key stream))"
proof -
  have "list_all (\<lambda>entry. cacheKey (snd entry) = fst entry \<and> apiCallPromise (snd entry) = Some Promise)
          (map_set streams key stream)"
    using assms by (intro list_all_map_set) (simp_all add: shapeOk_def registryShape_def list.pred_map o_def)
  moreover have "distinct (map fst (map_set streams key stream))"
    using assms(1) by (intro distinct_map_set) (simp add: shapeOk_def registryShape_def o_def)
  ultimately show ?thesis
    by (simp add: shapeOk_def registryShape_def list.pred_map o_def)
qed

lemma startStream_new:
  "startStream (createStream streams key p now) key p =
     Inr (map_set (createStream streams key p now) key
            \<lparr> cacheKey = key, params = p, subscribers = [], chunks = [],
              fullResponse = [], status = StreamActive, error = None, createdAt = now,
              apiCallPromise = Some Promise \<rparr>,
          [\<lparr> call_cacheKey = key, call_params = p \<rparr>])"
  by (simp add: startStream_def createStream_def Let_def map_of_map_set)

lemma getOrCreateStream_new:
  "map_of streams key = None \<Longrightarrow>
   getOrCreateStream streams key p now =
     (map_set (if length streams \<ge> MAX_ACTIVE_STREAMS
               then cleanupOldestCompletedStreams streams else streams) key
        \<lparr> cacheKey = key, params = p, subscribers = [], chunks = [],
          fullResponse = [], status = StreamActive, error = None, createdAt = now,
          apiCallPromise = Some Promise \<rparr>,
      [\<lparr> call_cacheKey = key, call_params = p \<rparr>])"
  by (simp add: getOrCreateStream_def Let_def startStream_new)
     (simp add: createStream_def Let_def map_set_map_set)

lemma shapeOk_getOrCreateStream:
  assumes "shapeOk (registryShape streams)"
  shows "shapeOk (registryShape (fst (getOrCreateStream streams key p now)))"
proof (cases "map_of streams key")
  case (Some stream)
  with assms show ?thesis by (simp add: getOrCreateStream_def)
next
  case None
  have "shapeOk (registryShape (if length streams \<ge> MAX_ACTIVE_STREAMS
               then cleanupOldestCompletedStreams streams else streams))"
    using assms by (simp add: cleanupOldestCompletedStreams_def Let_def shapeOk_fold_delete)
  then show ?thesis
    by (simp only: getOrCreateStream_new [OF None] fst_conv) (rule shapeOk_map_set, simp_all)
qed

lemma shapeOk_startStream:
  assumes "shapeOk (registryShape streams)" and "startStream streams key p = Inr (streams', calls)"
  shows "shapeOk (registryShape streams')"
proof (cases "map_of streams key")
  case None
  with assms show ?thesis by (simp add: startStream_def)
next
  case (Some stream)
  from assms(1) Some have "cacheKey stream = key \<and> apiCallPromise stream = Some Promise"
    using list_all_lookup [of "\<lambda>entry. cacheKey (snd entry) = fst entry \<and>
        apiCallPromise (snd entry) = Some Promise" streams key stream]
    by (simp add: shapeOk_def registryShape_def list.pred_map o_def)
  with assms Some show ?thesis
    by (simp add: startStream_def)
qed

lemma reachable_shapeOk: "reachable streams \<Longrightarrow> shapeOk (registryShape streams)"
proof (induction rule: reachable.induct)
  case reach_start
  show ?case by (simp add: shapeOk_def registryShape_def)
next
  case (reach_getOrCreate streams key streamParams now)
  then show ?case by (simp add: shapeOk_getOrCreateStream)
next
  case (reach_startStream streams key streamParams streams' calls)
  then show ?case by (auto intro: shapeOk_startStream)
next
  case (reach_subscribe streams key subscriberId now streams')
  then show ?case by (simp add: shape_subscribe)
next
  case (reach_cleanupTimer streams key)
  then show ?case by (simp add: cleanupTimer_def shapeOk_map_delete split: option.splits)
next
  case (reach_errorCleanupTimer streams key)
  then show ?case by (simp add: errorCleanupTimer_def shapeOk_map_delete)
qed simp_all

text \<open>
  The part of C2 that holds in every state the manager can reach: no key has two streams
  and every stream has its upstream call started, under its own key. For a key that has
  a stream, \<^const>\<open>getOrCreateStream\<close> and \<^const>\<open>startStream\<close> change nothing and start no call,
  and the request handler only subscribes: it starts no call and leaves the keys of the
  map as they are. For a key without a stream, \<^const>\<open>getOrCreateStream\<close> creates one active
  stream and starts exactly one upstream call, for that key.
\<close>

theorem single_upstream_call:
  assumes "reachable streams"
  shows "distinct (map fst streams) \<and>
         (\<forall>entry\<in>set streams. cacheKey (snd entry) = fst entry \<and>
                                apiCallPromise (snd entry) = Some Promise) \<and>
         (\<forall>stream. map_of streams key = Some stream \<longrightarrow>
            getOrCreateStream streams key streamParams now = (streams, []) \<and>
            startStream streams key streamParams = Inr (streams, []) \<and>
            snd (joinOrCreateStream streams key streamParams conn subscriberId now) = [] \<and>
            (\<exists>streams'. fst (joinOrCreateStream streams key streamParams conn subscriberId now)
                           = Inr streams' \<and> map fst streams' = map fst streams)) \<and>
         (map_of streams key = None \<longrightarrow>
            (\<exists>streams' stream. getOrCreateStream streams key streamParams now =
                 (streams', [\<lparr> call_cacheKey = key, call_params = streamParams \<rparr>]) \<and>
               map_of streams' key = Some stream \<and> status stream = StreamActive \<and>
               apiCallPromise stream = Some Promise \<and> distinct (map fst streams')))"
proof -
  from assms have ok: "shapeOk (registryShape streams)" by (rule reachable_shapeOk)
  then have d: "distinct (map fst streams)"
    and p: "\<forall>entry\<in>set streams. cacheKey (snd entry) = fst entry \<and>
                                apiCallPromise (snd entry) = Some Promise"
    by (simp_all add: shapeOk_def registryShape_def list.pred_map o_def list_all_iff)
  have existing: "getOrCreateStream streams key streamParams now = (streams, []) \<and>
            startStream streams key streamParams = Inr (streams, []) \<and>
            snd (joinOrCreateStream streams key streamParams conn subscriberId now) = [] \<and>
            (\<exists>streams'. fst (joinOrCreateStream streams key streamParams conn subscriberId now)
                           = Inr streams' \<and> map fst streams' = map fst streams)"
    if s: "map_of streams key = Some stream" for stream
  proof -
    from s have "(key, stream) \<in> set streams"
      by (rule map_of_SomeD)
    with p have pr: "apiCallPromise stream = Some Promise"
      by force
    have g: "getOrCreateStream streams key streamParams now = (streams, [])"
      using s by (simp add: getOrCreateStream_def)
    have st: "startStream streams key streamParams = Inr (streams, [])"
      using s pr by (simp add: startStream_def)
    obtain streams' where sub: "subscribe streams key conn subscriberId now = Inr streams'"
      using s by (auto simp: subscribe_def Let_def)
    from shape_subscribe [OF sub] have "map fst streams' = map fst streams"
      by (simp add: registryShape_def) (metis (no_types, lifting) list.map_comp map_eq_conv o_def fst_conv)
    with g st s sub show ?thesis
      by (auto simp: joinOrCreateStream_def getStream_def)
  qed
  have fresh: "\<exists>streams' stream. getOrCreateStream streams key streamParams now =
                 (streams', [\<lparr> call_cacheKey = key, call_params = streamParams \<rparr>]) \<and>
               map_of streams' key = Some stream \<and> status stream = StreamActive \<and>
               apiCallPromise stream = Some Promise \<and> distinct (map fst streams')"
    if n: "map_of streams key = None"
  proof -
    from shapeOk_getOrCreateStream [OF ok, of key streamParams now]
    have "distinct (map fst (fst (getOrCreateStream streams key streamParams now)))"
      by (simp add: shapeOk_def registryShape_def o_def)
    then show ?thesis
      by (simp add: getOrCreateStream_new [OF n] map_of_map_set)
  qed
  from d p existing fresh show ?thesis by blast
qed

theorem single_upstream_call_witness:
  "getOrCreateStream [] ''k''
     \<lparr> sp_sentence = ''Bonjour le monde'', sp_targetWord = ''monde'', sp_targetLanguage = ''fr'',
       sp_nativeLanguage = ''en'', sp_contextBefore = None, sp_contextAfter = None \<rparr> 0
   = ([(''k'', \<lparr> cacheKey = ''k'',
                 params = \<lparr> sp_sentence = ''Bonjour le monde'', sp_targetWord = ''monde'',
                            sp_targetLanguage = ''fr'', sp_nativeLanguage = ''en'',
                            sp_contextBefore = None, sp_contextAfter = None \<rparr>,
                 subscribers = [], chunks = [], fullResponse = [], status = StreamActive,
                 error = None, createdAt = 0, apiCallPromise = Some Promise \<rparr>)],
      [\<lparr> call_cacheKey = ''k'',
         call_params = \<lparr> sp_sentence = ''Bonjour le monde'', sp_targetWord = ''monde'',
                         sp_targetLanguage = ''fr'', sp_nativeLanguage = ''en'',
                         sp_contextBefore = None, sp_contextAfter = None \<rparr> \<rparr>]) \<and>
   snd (joinOrCreateStream
          [(''k'', \<lparr> cacheKey = ''k'',
                 params = \<lparr> sp_sentence = ''Bonjour le monde'', sp_targetWord = ''monde'',
                            sp_targetLanguage = ''fr'', sp_nativeLanguage = ''en'',
                            sp_contextBefore = None, sp_contextAfter = None \<rparr>,
                 subscribers = [], chunks = [], fullResponse = [], status = StreamActive,
                 error = None, createdAt = 0, apiCallPromise = Some Promise \<rparr>)]
          ''k''
          \<lparr> sp_sentence = ''Bonjour le monde'', sp_targetWord = ''monde'', sp_targetLanguage = ''fr'',
            sp_nativeLanguage = ''en'', sp_contextBefore = None, sp_contextAfter = None \<rparr>
          freshConnection ''B'' 5) = []"
proof -
  let ?p = "\<lparr> sp_sentence = ''Bonjour le monde'', sp_targetWord = ''monde'', sp_targetLanguage = ''fr'',
       sp_nativeLanguage = ''en'', sp_contextBefore = None, sp_contextAfter = None \<rparr>"
  let ?stream = "\<lparr> cacheKey = ''k'', params = ?p, subscribers = [], chunks = [], fullResponse = [],
       status = StreamActive, error = None, createdAt = 0, apiCallPromise = Some Promise \<rparr>"
  have r0: "reachable []" by (rule reach_start)
  have none: "map_of ([] :: streamMap) ''k'' = None" by simp
  from single_upstream_call [OF r0, of "''k''" ?p 0] none
  have created: "getOrCreateStream [] ''k'' ?p 0 = ([(''k'', ?stream)], [\<lparr> call_cacheKey = ''k'', call_params = ?p \<rparr>])"
    by (auto simp: getOrCreateStream_new MAX_ACTIVE_STREAMS_def)
  have "reachable (fst (getOrCreateStream [] ''k'' ?p 0))"
    using r0 by (rule reach_getOrCreate)
  then have r1: "reachable [(''k'', ?stream)]"
    by (simp add: created)
  have some: "map_of [(''k'', ?stream)] ''k'' = Some ?stream" by simp
  from single_upstream_call [OF r1, of "''k''" ?p 5 freshConnection "''B''"] some
  have "snd (joinOrCreateStream [(''k'', ?stream)] ''k'' ?p freshConnection ''B'' 5) = []"
    by blast
  with created show ?thesis by simp
qed

subsection \<open>A cleanup timer that outlives its stream\<close>

lemma otherKey_eq [simp]: "otherKey n = otherKey k \<longleftrightarrow> n = k"
  by (auto simp: otherKey_def replicate_eq_replicate)

lemma map_set_absent: "map_of m k = None \<Longrightarrow> map_set m k v = m @ [(k, v)]"
  by (induction m k v rule: map_set.induct) (auto split: if_splits)

lemma map_of_absent_append: "map_of m k = None \<Longrightarrow> map_of (m @ [(k, v)]) k = Some v"
  by (simp add: map_add_def)

lemma run_append:
  "run (es @ es') m = (case run es m of None \<Rightarrow> None | Some m' \<Rightarrow> run es' m')"
  by (induction es arbitrary: m) (auto split: option.splits)

lemma map_of_fold_map_delete:
  "map_of m k = None \<Longrightarrow> map_of (fold (\<lambda>entry m. map_delete m (fst entry)) es m) k = None"
  by (induction es arbitrary: m) (simp_all add: map_of_map_delete)

lemma map_of_cleanupOldest:
  "map_of streams key = None \<Longrightarrow> map_of (cleanupOldestCompletedStreams streams) key = None"
  by (simp add: cleanupOldestCompletedStreams_def Let_def map_of_fold_map_delete)

text \<open>A request for a key that has no stream.\<close>

lemma request_new:
  assumes absent: "map_of (registry m) key = None"
  shows "step (Request key streamParams subscriberId now) m =
           Some (m\<lparr> registry :=
                      (if MAX_ACTIVE_STREAMS \<le> length (registry m)
                       then cleanupOldestCompletedStreams (registry m) else registry m) @
                      [(key, \<lparr> cacheKey = key, params = streamParams,
                               subscribers =
                                 [(subscriberId,
                                   \<lparr> sub_id = subscriberId, res = freshConnection, joinedAt = now,
                                     isReplaying = False, replayTask = NoReplay \<rparr>)],
                               chunks = [], fullResponse = [], status = StreamActive,
                               error = None, createdAt = now,
                               apiCallPromise = Some Promise \<rparr>)],
                    upstreamCalls := upstreamCalls m
                      @ [\<lparr> call_cacheKey = key, call_params = streamParams \<rparr>] \<rparr>)"
proof -
  let ?created = "\<lparr> cacheKey = key, params = streamParams, subscribers = [], chunks = [],
             fullResponse = [], status = StreamActive, error = None, createdAt = now,
             apiCallPromise = None \<rparr>"
  let ?started = "\<lparr> cacheKey = key, params = streamParams, subscribers = [], chunks = [],
             fullResponse = [], status = StreamActive, error = None, createdAt = now,
             apiCallPromise = Some Promise \<rparr>"
  define kept where "kept = (if MAX_ACTIVE_STREAMS \<le> length (registry m)
                       then cleanupOldestCompletedStreams (registry m) else registry m)"
  from absent have kept: "map_of kept key = None"
    by (simp add: kept_def map_of_cleanupOldest)
  have created: "createStream (registry m) key streamParams now = kept @ [(key, ?created)]"
    using kept by (simp add: createStream_def map_set_absent kept_def Let_def)
  from absent kept have goc: "getOrCreateStream (registry m) key streamParams now =
      (kept @ [(key, ?started)], [\<lparr> call_cacheKey = key, call_params = streamParams \<rparr>])"
    by (simp add: getOrCreateStream_def created startStream_def map_of_absent_append
        map_set_absent del: map_of_append)
      (simp add: map_set_absent [symmetric] map_set_map_set)
  from kept have sub: "subscribe (kept @ [(key, ?started)]) key freshConnection subscriberId now
     = Inr (kept @
                      [(key, \<lparr> cacheKey = key, params = streamParams,
                               subscribers =
                                 [(subscriberId,
                                   \<lparr> sub_id = subscriberId, res = freshConnection, joinedAt = now,
                                     isReplaying = False, replayTask = NoReplay \<rparr>)],
                               chunks = [], fullResponse = [], status = StreamActive,
                               error = None, createdAt = now,
                               apiCallPromise = Some Promise \<rparr>)])"
    by (simp add: subscribe_def setSubscriber_def map_of_absent_append del: map_of_append)
      (simp add: map_set_absent [symmetric] map_set_map_set)
  from absent show ?thesis
    by (simp add: subscriberAt_def joinOrCreateStream_def getStream_def goc sub)
       (simp add: kept_def)
qed

lemma map_of_otherKeys:
  "map_of (map (\<lambda>n. (otherKey n, f n)) ns) (otherKey k) = (if k \<in> set ns then Some (f k) else None)"
  by (induction ns) auto

text \<open>Requests for keys that have no stream, one after the other, while the map has room.\<close>

lemma requests_new:
  assumes absent: "\<And>n. 1 \<le> n \<Longrightarrow> map_of (registry m) (otherKey n) = None"
    and room: "length (registry m) + j \<le> MAX_ACTIVE_STREAMS"
  shows "run (map (\<lambda>n. Request (otherKey n) streamParams (subscriberIds n) (clock n)) [1..<Suc j]) m =
           Some (m\<lparr> registry := registry m @
                      map (\<lambda>n. (otherKey n,
                                 \<lparr> cacheKey = otherKey n, params = streamParams,
                                   subscribers =
                                     [(subscriberIds n,
                                       \<lparr> sub_id = subscriberIds n, res = freshConnection,
                                         joinedAt = clock n, isReplaying = False,
                                         replayTask = NoReplay \<rparr>)],
                                   chunks = [], fullResponse = [], status = StreamActive,
                                   error = None, createdAt = clock n,
                                   apiCallPromise = Some Promise \<rparr>)) [1..<Suc j],
                    upstreamCalls := upstreamCalls m @
                      map (\<lambda>n. \<lparr> call_cacheKey = otherKey n, call_params = streamParams \<rparr>)
                        [1..<Suc j] \<rparr>)"
  using room
proof (induction j)
  case 0
  show ?case by simp
next
  case (Suc j)
  let ?new = "\<lambda>n. \<lparr> cacheKey = otherKey n, params = streamParams,
                                   subscribers =
                                     [(subscriberIds n,
                                       \<lparr> sub_id = subscriberIds n, res = freshConnection,
                                         joinedAt = clock n, isReplaying = False,
                                         replayTask = NoReplay \<rparr>)],
                                   chunks = [], fullResponse = [], status = StreamActive,
                                   error = None, createdAt = clock n,
                                   apiCallPromise = Some Promise \<rparr>"
  let ?m = "m\<lparr> registry := registry m @ map (\<lambda>n. (otherKey n, ?new n)) [1..<Suc j],
               upstreamCalls := upstreamCalls m @
                      map (\<lambda>n. \<lparr> call_cacheKey = otherKey n, call_params = streamParams \<rparr>)
                        [1..<Suc j] \<rparr>"
  from Suc have before: "run (map (\<lambda>n. Request (otherKey n) streamParams (subscriberIds n) (clock n))
                            [1..<Suc j]) m = Some ?m"
    by simp
  have absent': "map_of (registry ?m) (otherKey (Suc j)) = None"
    using absent [of "Suc j"] by (simp add: map_add_def map_of_otherKeys)
  from Suc.prems have room': "\<not> MAX_ACTIVE_STREAMS \<le> length (registry ?m)"
    by simp
  have "step (Request (otherKey (Suc j)) streamParams (subscriberIds (Suc j)) (clock (Suc j))) ?m =
      Some (?m\<lparr> registry := registry ?m @ [(otherKey (Suc j), ?new (Suc j))],
                upstreamCalls := upstreamCalls ?m
                      @ [\<lparr> call_cacheKey = otherKey (Suc j), call_params = streamParams \<rparr>] \<rparr>)"
    by (simp only: request_new [OF absent'] room' if_False)
  moreover have "[1..<Suc (Suc j)] = [1..<Suc j] @ [Suc j]"
    by simp
  ultimately show ?case
    by (simp only: map_append run_append before option.case list.map run.simps)
       simp
qed

lemma otherKey_not_s [simp]: "otherKey n \<noteq> ''s''"
proof
  assume eq: "otherKey n = ''s''"
  then have "length (otherKey n) = 1" by simp
  then have "n = 1" by (simp add: otherKey_def)
  with eq show False by (simp add: otherKey_def)
qed

lemma s_not_otherKey [simp]: "''s'' \<noteq> otherKey n"
  using otherKey_not_s [of n] by (rule not_sym)

lemma map_set_last: "map_of m k = None \<Longrightarrow> map_set (m @ [(k, v)]) k v' = m @ [(k, v')]"
  by (simp add: map_set_absent [symmetric] map_set_map_set)

lemma map_delete_last: "map_of m k = None \<Longrightarrow> map_delete (m @ [(k, v)]) k = m"
  by (induction m) (auto simp: map_delete_def split: if_splits)

text \<open>What \<^const>\<open>cleanupOldestCompletedStreams\<close> removes when no stream has completed, and
  when the only completed stream is the first of the map and has no subscribers.\<close>

lemma cleanupOldest_none:
  assumes "\<forall>entry\<in>set streams. status (snd entry) \<noteq> StreamCompleted"
  shows "cleanupOldestCompletedStreams streams = streams"
proof -
  from assms have "filter (\<lambda>entry. status (snd entry) = StreamCompleted \<and>
                                length (subscribers (snd entry)) = 0) streams = []"
    by (simp add: filter_empty_conv)
  then show ?thesis
    by (simp add: cleanupOldestCompletedStreams_def)
qed

lemma cleanupOldest_first:
  assumes "status stream = StreamCompleted" and "subscribers stream = []"
    and "\<forall>entry\<in>set streams. status (snd entry) \<noteq> StreamCompleted"
    and "map_of streams key = None"
  shows "cleanupOldestCompletedStreams ((key, stream) # streams) = streams"
proof -
  from assms(3) have "filter (\<lambda>entry. status (snd entry) = StreamCompleted \<and>
                                length (subscribers (snd entry)) = 0) streams = []"
    by (simp add: filter_empty_conv)
  with assms(1,2) have "cleanupOldestCompletedStreams ((key, stream) # streams)
      = map_delete ((key, stream) # streams) key"
    by (simp add: cleanupOldestCompletedStreams_def)
  also from assms(4) have "\<dots> = streams"
    using map_delete_last [of "[]" key stream, simplified]
    by (induction streams) (auto simp: map_delete_def split: if_splits)
  finally show ?thesis .
qed

lemma callsInFlight_registry [simp]:
  "callsInFlight (m\<lparr> registry := r \<rparr>) key = callsInFlight m key"
  by (simp add: callsInFlight_def inFlight_def)

lemma step_Chunk:
  assumes "inFlight m n" and "call_cacheKey (upstreamCalls m ! n) = key"
    and "map_of (registry m) key = Some stream"
  shows "step (Chunk n chunk now) m =
           Some (m\<lparr> registry := map_set (registry m) key
                   (stream\<lparr> chunks := chunks stream
                        @ [\<lparr> chunk_text = chunk, chunk_timestamp = now - createdAt stream \<rparr>],
                     fullResponse := fullResponse stream @ chunk,
                     subscribers := broadcast (\<lambda>conn. res_write conn (ChunkFrame chunk))
                                      (subscribers stream) \<rparr>) \<rparr>)"
  using assms by (simp add: publishChunk_def)

text \<open>
  C2, evaluated where it fails. After \<^const>\<open>staleTimerRun\<close> the key \<^verbatim>\<open>''s''\<close> has an active
  stream and two upstream calls in flight, the calls 101 and 102 that the second and the
  third request for \<^verbatim>\<open>''s''\<close> started, and the chunks of both are in the log of the one
  stream: the third request did not only subscribe. The callback of \<^verbatim>\<open>scheduleCleanup\<close>
  removed the stream of call 101, which was active and not the completed stream the
  timer was set for.
\<close>

theorem stale_cleanup_timer_two_calls:
  "run staleTimerRun noStreams \<noteq> None \<and>
   callsInFlight (outcome staleTimerRun) ''s'' = [101, 102] \<and>
   streamStatus (outcome staleTimerRun) ''s'' = Some StreamActive \<and>
   loggedChunks (outcome staleTimerRun) ''s'' = Some [''x'', ''y'']"
proof -
  let ?done = "\<lparr> cacheKey = ''s'', params = someParams, subscribers = [], chunks = [],
                  fullResponse = [], status = StreamCompleted, error = None, createdAt = 0,
                  apiCallPromise = Some Promise \<rparr>"
  let ?sc = "\<lparr> call_cacheKey = ''s'', call_params = someParams \<rparr>"
  let ?oc = "\<lambda>n. \<lparr> call_cacheKey = otherKey n, call_params = someParams \<rparr>"
  let ?first = "\<lparr> registry = [(''s'', ?done)], upstreamCalls = [?sc],
      settledCalls = [0], cleanupTimers = [''s''], errorTimers = [] \<rparr>"
  let ?new = "\<lambda>n. (otherKey n,
                    \<lparr> cacheKey = otherKey n, params = someParams,
                      subscribers =
                        [(otherKey n,
                          \<lparr> sub_id = otherKey n, res = freshConnection,
                            joinedAt = 280000 + 100 * int n, isReplaying = False,
                            replayTask = NoReplay \<rparr>)],
                      chunks = [], fullResponse = [], status = StreamActive, error = None,
                      createdAt = 280000 + 100 * int n, apiCallPromise = Some Promise \<rparr>)"
  let ?joined = "\<lambda>subscriberId now.
        \<lparr> cacheKey = ''s'', params = someParams,
          subscribers =
            [(subscriberId, \<lparr> sub_id = subscriberId, res = freshConnection, joinedAt = now,
                              isReplaying = False, replayTask = NoReplay \<rparr>)],
          chunks = [], fullResponse = [], status = StreamActive, error = None,
          createdAt = now, apiCallPromise = Some Promise \<rparr>"
  define others where "others = map ?new [1..<Suc 99]"
  define started where "started = map ?oc [1..<Suc 99]"
  define filled where "filled = others @ [?new 100]"
  have others_s: "map_of others ''s'' = None"
    by (auto simp: others_def map_of_eq_None_iff)
  have others_100: "map_of others (otherKey 100) = None"
    by (simp add: others_def map_of_otherKeys)
  have others_active: "\<forall>entry\<in>set others. status (snd entry) \<noteq> StreamCompleted"
    by (auto simp: others_def)
  have others_length: "length others = 99"
    by (simp add: others_def)
  have filled_s: "map_of filled ''s'' = None"
    using others_s by (simp add: filled_def map_add_def)
  have filled_active: "\<forall>entry\<in>set filled. status (snd entry) \<noteq> StreamCompleted"
    using others_active by (simp add: filled_def)
  have filled_length: "length filled = 100"
    by (simp add: filled_def others_length)
  have started_length: "length started = 99"
    by (simp add: started_def)
  have started_keys: "\<forall>call\<in>set started. call_cacheKey call \<noteq> ''s''"
    by (auto simp: started_def)

  let ?m2 = "\<lparr> registry = (''s'', ?done) # others, upstreamCalls = ?sc # started,
      settledCalls = [0], cleanupTimers = [''s''], errorTimers = [] \<rparr>"
  let ?m3 = "\<lparr> registry = filled, upstreamCalls = ?sc # started @ [?oc 100],
      settledCalls = [0], cleanupTimers = [''s''], errorTimers = [] \<rparr>"
  let ?m4 = "\<lparr> registry = filled @ [(''s'', ?joined ''b'' 291000)],
      upstreamCalls = ?sc # started @ [?oc 100, ?sc],
      settledCalls = [0], cleanupTimers = [''s''], errorTimers = [] \<rparr>"
  let ?m5 = "\<lparr> registry = filled @ [(''s'', (?joined ''b'' 291000)\<lparr> subscribers := [] \<rparr>)],
      upstreamCalls = ?sc # started @ [?oc 100, ?sc],
      settledCalls = [0], cleanupTimers = [''s''], errorTimers = [] \<rparr>"
  let ?m6 = "\<lparr> registry = filled, upstreamCalls = ?sc # started @ [?oc 100, ?sc],
      settledCalls = [0], cleanupTimers = [], errorTimers = [] \<rparr>"
  let ?m7 = "\<lparr> registry = filled @ [(''s'', ?joined ''c'' 302000)],
      upstreamCalls = ?sc # started @ [?oc 100, ?sc, ?sc],
      settledCalls = [0], cleanupTimers = [], errorTimers = [] \<rparr>"
  let ?x = "\<lparr> cacheKey = ''s'', params = someParams,
          subscribers =
            [(''c'', \<lparr> sub_id = ''c'',
                      res = \<lparr> frames = [ChunkFrame ''x''], writableEnded = False,
                              writeThrows = False \<rparr>,
                      joinedAt = 302000, isReplaying = False, replayTask = NoReplay \<rparr>)],
          chunks = [\<lparr> chunk_text = ''x'', chunk_timestamp = 1000 \<rparr>], fullResponse = ''x'',
          status = StreamActive, error = None,
          createdAt = 302000, apiCallPromise = Some Promise \<rparr>"
  let ?xy = "\<lparr> cacheKey = ''s'', params = someParams,
          subscribers =
            [(''c'', \<lparr> sub_id = ''c'',
                      res = \<lparr> frames = [ChunkFrame ''x'', ChunkFrame ''y''],
                              writableEnded = False, writeThrows = False \<rparr>,
                      joinedAt = 302000, isReplaying = False, replayTask = NoReplay \<rparr>)],
          chunks = [\<lparr> chunk_text = ''x'', chunk_timestamp = 1000 \<rparr>,
                    \<lparr> chunk_text = ''y'', chunk_timestamp = 2000 \<rparr>], fullResponse = ''xy'',
          status = StreamActive, error = None,
          createdAt = 302000, apiCallPromise = Some Promise \<rparr>"
  let ?m8 = "\<lparr> registry = filled @ [(''s'', ?x)],
      upstreamCalls = ?sc # started @ [?oc 100, ?sc, ?sc],
      settledCalls = [0], cleanupTimers = [], errorTimers = [] \<rparr>"
  let ?m9 = "\<lparr> registry = filled @ [(''s'', ?xy)],
      upstreamCalls = ?sc # started @ [?oc 100, ?sc, ?sc],
      settledCalls = [0], cleanupTimers = [], errorTimers = [] \<rparr>"

  have first: "run [Request ''s'' someParams ''a'' 0, Returns 0, Close ''s'' ''a''] noStreams
                 = Some ?first"
    by code_simp
  have "run (map (\<lambda>n. Request (otherKey n) someParams (otherKey n) (280000 + 100 * int n)) [1..<Suc 99]) ?first
          = Some (?first\<lparr> registry := registry ?first @ map ?new [1..<Suc 99],
                upstreamCalls := upstreamCalls ?first @ map ?oc [1..<Suc 99] \<rparr>)"
    by (rule requests_new) (simp_all add: MAX_ACTIVE_STREAMS_def)
  then have fill: "run (map (\<lambda>n. Request (otherKey n) someParams (otherKey n) (280000 + 100 * int n)) [1..<Suc 99]) ?first
          = Some ?m2"
    by (simp add: others_def started_def)
  have "map_of (registry ?m2) (otherKey 100) = None"
    using others_100 by simp
  from request_new [OF this, of someParams "otherKey 100" 290000]
  have e1: "step (Request (otherKey 100) someParams (otherKey 100) 290000) ?m2 = Some ?m3"
    by (simp add: MAX_ACTIVE_STREAMS_def cleanupOldest_first others_active others_s
        others_length filled_def del: step.simps)
  have "map_of (registry ?m3) ''s'' = None"
    using filled_s by simp
  from request_new [OF this, of someParams "''b''" 291000]
  have e2: "step (Request ''s'' someParams ''b'' 291000) ?m3 = Some ?m4"
    by (simp add: MAX_ACTIVE_STREAMS_def cleanupOldest_none filled_active
        filled_length del: step.simps)
  have e3: "step (Close ''s'' ''b'') ?m4 = Some ?m5"
    using filled_s
    by (simp add: unsubscribe_def map_of_absent_append map_set_last map_delete_def
        del: map_of_append)
  have e4: "step (CleanupFires ''s'') ?m5 = Some ?m6"
    using filled_s
    by (simp add: cleanupTimer_def map_of_absent_append map_delete_last del: map_of_append)
  have "map_of (registry ?m6) ''s'' = None"
    using filled_s by simp
  from request_new [OF this, of someParams "''c''" 302000]
  have e5: "step (Request ''s'' someParams ''c'' 302000) ?m6 = Some ?m7"
    by (simp add: MAX_ACTIVE_STREAMS_def cleanupOldest_none filled_active
        filled_length del: step.simps)
  have call101: "call_cacheKey (upstreamCalls ?m7 ! 101) = ''s''"
    and call102: "call_cacheKey (upstreamCalls ?m8 ! 102) = ''s''"
    by (simp_all add: nth_append started_length)
  have "inFlight ?m7 101"
    by (simp add: inFlight_def started_length)
  moreover note call101
  moreover have "map_of (registry ?m7) ''s'' = Some (?joined ''c'' 302000)"
    using filled_s by (simp add: map_of_absent_append del: map_of_append)
  ultimately have "step (Chunk 101 ''x'' 303000) ?m7 = Some (?m7\<lparr> registry := map_set (registry ?m7) ''s''
                   ((?joined ''c'' 302000)\<lparr> chunks := chunks (?joined ''c'' 302000)
                        @ [\<lparr> chunk_text = ''x'', chunk_timestamp = 303000 - createdAt (?joined ''c'' 302000) \<rparr>],
                     fullResponse := fullResponse (?joined ''c'' 302000) @ ''x'',
                     subscribers := broadcast (\<lambda>conn. res_write conn (ChunkFrame ''x''))
                                      (subscribers (?joined ''c'' 302000)) \<rparr>) \<rparr>)"
    by (rule step_Chunk)
  then have e6: "step (Chunk 101 ''x'' 303000) ?m7 = Some ?m8"
    using filled_s
    by (simp add: map_set_last broadcast_def deadSubscribers_def res_write_def
        freshConnection_def del: step.simps)
  have "inFlight ?m8 102"
    by (simp add: inFlight_def started_length)
  moreover note call102
  moreover have "map_of (registry ?m8) ''s'' = Some ?x"
    using filled_s by (simp add: map_of_absent_append del: map_of_append)
  ultimately have "step (Chunk 102 ''y'' 304000) ?m8 = Some (?m8\<lparr> registry := map_set (registry ?m8) ''s''
                   (?x\<lparr> chunks := chunks ?x
                        @ [\<lparr> chunk_text = ''y'', chunk_timestamp = 304000 - createdAt ?x \<rparr>],
                     fullResponse := fullResponse ?x @ ''y'',
                     subscribers := broadcast (\<lambda>conn. res_write conn (ChunkFrame ''y''))
                                      (subscribers ?x) \<rparr>) \<rparr>)"
    by (rule step_Chunk)
  then have e7: "step (Chunk 102 ''y'' 304000) ?m8 = Some ?m9"
    using filled_s
    by (simp add: map_set_last broadcast_def deadSubscribers_def res_write_def
        del: step.simps)
  have split: "staleTimerRun =
      [Request ''s'' someParams ''a'' 0, Returns 0, Close ''s'' ''a'']
      @ map (\<lambda>n. Request (otherKey n) someParams (otherKey n) (280000 + 100 * int n)) [1..<Suc 99]
      @ [Request (otherKey 100) someParams (otherKey 100) 290000,
        Request ''s'' someParams ''b'' 291000, Close ''s'' ''b'', CleanupFires ''s'',
        Request ''s'' someParams ''c'' 302000, Chunk 101 ''x'' 303000, Chunk 102 ''y'' 304000]"
    by (simp add: staleTimerRun_def upt_rec [of 100 101] upt_conv_Nil
        upt_add_eq_append [of 1 100 1, simplified])
  have rest: "run [Request (otherKey 100) someParams (otherKey 100) 290000,
        Request ''s'' someParams ''b'' 291000, Close ''s'' ''b'', CleanupFires ''s'',
        Request ''s'' someParams ''c'' 302000, Chunk 101 ''x'' 303000, Chunk 102 ''y'' 304000] ?m2
      = Some ?m9"
    by (simp only: run.simps e1 e2 e3 e4 e5 e6 e7 option.case)
  have whole: "run staleTimerRun noStreams = Some ?m9"
    by (simp only: split run_append first fill rest option.case)
  have others_calls: "call_cacheKey (upstreamCalls ?m9 ! n) \<noteq> ''s''"
    if "1 \<le> n" "n < 101" for n
  proof (cases "n < 100")
    case True
    with that have "upstreamCalls ?m9 ! n = started ! (n - 1)"
      by (simp add: nth_Cons' nth_append started_length)
    moreover from that True have "started ! (n - 1) \<in> set started"
      by (simp add: started_length)
    ultimately show ?thesis using started_keys by auto
  next
    case False
    with that have "n = 100" by simp
    then show ?thesis by (simp add: nth_append started_length)
  qed
  have calls: "callsInFlight ?m9 ''s'' = [101, 102]"
  proof -
    have upt: "[0..<103] = 0 # [1..<101] @ [101, 102]"
      by (simp add: upt_rec [of 0 103] upt_add_eq_append [of 1 101 2, simplified]
          upt_rec [of 101 103] upt_rec [of 102 103])
    have size: "length (upstreamCalls ?m9) = 103"
      by (simp add: started_length)
    have none: "filter (\<lambda>n. inFlight ?m9 n \<and> call_cacheKey (upstreamCalls ?m9 ! n) = ''s'')
                  [1..<101] = []"
      using others_calls by (auto simp: filter_empty_conv simp del: select_convs)
    have "\<not> inFlight ?m9 0" "inFlight ?m9 101" "inFlight ?m9 102"
      by (simp_all add: inFlight_def started_length)
    moreover have "call_cacheKey (upstreamCalls ?m9 ! 101) = ''s''"
      "call_cacheKey (upstreamCalls ?m9 ! 102) = ''s''"
      by (simp_all add: nth_append started_length)
    ultimately show ?thesis
      unfolding callsInFlight_def size upt
      by (simp only: filter.simps filter_append none if_True if_False simp_thms append_Nil)
  qed
  have "streamStatus ?m9 ''s'' = Some StreamActive" "loggedChunks ?m9 ''s'' = Some [''x'', ''y'']"
    using filled_s
    by (simp_all add: streamStatus_def loggedChunks_def map_of_absent_append del: map_of_append)
  with whole calls show ?thesis
    by (simp add: outcome_def)
qed

text \<open>Every event is a step of \<^const>\<open>reachable\<close>: what holds of all reachable maps holds
  of the registry after every run.\<close>

lemma getOrCreateStream_existing:
  "map_of streams key = Some stream \<Longrightarrow>
   getOrCreateStream streams key streamParams now = (streams, [])"
  by (simp add: getOrCreateStream_def)

lemma subscriberAt_getOrCreateStream:
  assumes "subscriberAt streams key sid = None"
  shows "subscriberAt (fst (getOrCreateStream streams key streamParams now)) key sid = None"
proof (cases "map_of streams key")
  case None
  then show ?thesis
    by (simp add: getOrCreateStream_new subscriberAt_def map_of_map_set)
next
  case (Some stream)
  with assms show ?thesis
    by (simp add: getOrCreateStream_existing)
qed

lemma step_reachable:
  assumes "step e m = Some m'" and "reachable (registry m)"
  shows "reachable (registry m')"
proof (cases e)
  case (Request key streamParams sid now)
  with assms(1) have fresh: "subscriberAt (registry m) key sid = None"
    by (simp split: if_splits)
  let ?created = "fst (getOrCreateStream (registry m) key streamParams now)"
  have created: "reachable ?created"
    using assms(2) by (rule reach_getOrCreate)
  have fresh': "\<forall>stream. map_of ?created key = Some stream \<longrightarrow> map_of (subscribers stream) sid = None"
    using subscriberAt_getOrCreateStream [OF fresh, of streamParams now]
    by (auto simp: subscriberAt_def)
  from fresh have fresh0: "\<forall>stream. map_of (registry m) key = Some stream \<longrightarrow>
                                    map_of (subscribers stream) sid = None"
    by (auto simp: subscriberAt_def)
  show ?thesis
  proof (cases "joinOrCreateStream (registry m) key streamParams freshConnection sid now")
    case (Pair joined started)
    show ?thesis
    proof (cases joined)
      case (Inl err)
      with Pair Request assms(1) fresh have "registry m' = ?created"
        by auto
      with created show ?thesis by simp
    next
      case (Inr streams')
      with Pair Request assms(1) fresh have m': "registry m' = streams'"
        by auto
      from Pair Inr have "subscribe (registry m) key freshConnection sid now = Inr streams' \<or>
                          subscribe ?created key freshConnection sid now = Inr streams'"
        by (auto simp: joinOrCreateStream_def getStream_def split: option.splits if_splits prod.splits)
      then have "reachable streams'"
      proof
        assume "subscribe (registry m) key freshConnection sid now = Inr streams'"
        with assms(2) fresh0 show ?thesis by (rule reach_subscribe)
      next
        assume "subscribe ?created key freshConnection sid now = Inr streams'"
        with created fresh' show ?thesis by (rule reach_subscribe)
      qed
      with m' show ?thesis by simp
    qed
  qed
next
  case (Close key sid)
  with assms show ?thesis by (auto intro: reach_unsubscribe)
next
  case (Resume key sid)
  with assms show ?thesis by (auto intro: reach_resumeReplay)
next
  case (Chunk n chunk now)
  with assms show ?thesis by (auto intro: reach_publishChunk split: if_splits)
next
  case (Returns n)
  with assms show ?thesis by (auto simp: Let_def intro: reach_completeStream split: if_splits)
next
  case (Throws n err)
  with assms show ?thesis by (auto simp: Let_def intro: reach_errorStream split: if_splits)
next
  case (CleanupFires key)
  with assms show ?thesis by (auto intro: reach_cleanupTimer split: if_splits)
next
  case (ErrorCleanupFires key)
  with assms show ?thesis by (auto intro: reach_errorCleanupTimer split: if_splits)
qed

lemma run_reachable:
  "run es m = Some m' \<Longrightarrow> reachable (registry m) \<Longrightarrow> reachable (registry m')"
  by (induction es arbitrary: m) (auto split: option.splits dest: step_reachable)

lemma outcome_reachable: "reachable (registry (outcome es))"
proof (cases "run es noStreams")
  case None
  then show ?thesis by (simp add: outcome_def noStreams_def reach_start)
next
  case (Some m)
  have "reachable (registry noStreams)"
    by (simp add: noStreams_def reach_start)
  with Some have "reachable (registry m)"
    by (rule run_reachable)
  with Some show ?thesis
    by (simp add: outcome_def)
qed

subsection \<open>A replay that the timer of the error ends\<close>

lemma replayLoop_next:
  assumes "c + 1 < length (chunks stream)" and "c < tot"
    and "\<not> writableEnded conn" and "\<not> writeThrows conn"
  shows "replayLoop stream conn c tot =
           (res_write conn (ChunkFrame (chunk_text (chunks stream ! c))),
            Suspended (AtChunkDelay c tot))"
  using assms by (subst replayLoop.simps) (simp add: Let_def)

lemma sentChunks_Suc: "sentChunks (Suc n) = sentChunks n @ [ChunkFrame (chunkName n)]"
  by (simp add: sentChunks_def)

lemma loggedStream_simps [simp]:
  "subscribers (loggedStream n subs st err) = subs"
  "status (loggedStream n subs st err) = st"
  "length (chunks (loggedStream n subs st err)) = n"
  "createdAt (loggedStream n subs st err) = 0"
  "i < n \<Longrightarrow> chunk_text (chunks (loggedStream n subs st err) ! i) = chunkName i"
  "(loggedStream n subs st err)\<lparr> subscribers := subs' \<rparr> = loggedStream n subs' st err"
  by (simp_all add: loggedStream_def)

text \<open>The chunks of the upstream call, published to the one live subscriber.\<close>

lemma chunks_published:
  "run (map (\<lambda>i. Chunk 0 (chunkName i) (100 * (int i + 1))) [0..<n])
     \<lparr> registry = [(''s'', loggedStream 0
          [(''a'', \<lparr> sub_id = ''a'',
                    res = \<lparr> frames = sentChunks 0, writableEnded = False, writeThrows = False \<rparr>,
                    joinedAt = 0, isReplaying = False, replayTask = NoReplay \<rparr>)]
          StreamActive None)],
       upstreamCalls = [\<lparr> call_cacheKey = ''s'', call_params = someParams \<rparr>],
       settledCalls = [], cleanupTimers = [], errorTimers = [] \<rparr>
   = Some \<lparr> registry = [(''s'', loggedStream n
          [(''a'', \<lparr> sub_id = ''a'',
                    res = \<lparr> frames = sentChunks n, writableEnded = False, writeThrows = False \<rparr>,
                    joinedAt = 0, isReplaying = False, replayTask = NoReplay \<rparr>)]
          StreamActive None)],
       upstreamCalls = [\<lparr> call_cacheKey = ''s'', call_params = someParams \<rparr>],
       settledCalls = [], cleanupTimers = [], errorTimers = [] \<rparr>"
proof (induction n)
  case 0
  show ?case by simp
next
  case (Suc n)
  have "[0..<Suc n] = [0..<n] @ [n]" by simp
  then show ?case
    by (simp only: map_append run_append Suc option.case list.map run.simps)
       (simp add: inFlight_def publishChunk_def broadcast_def deadSubscribers_def res_write_def
          loggedStream_def sentChunks_def)
qed

text \<open>The continuation of the replay of \<^verbatim>\<open>''d''\<close>, with the chunks up to \<open>k\<close> sent and two
  more in the log: it sends the next chunk and waits again.\<close>

lemma replay_continues:
  assumes k: "k + 2 < n"
  shows "step (Resume ''s'' ''d'')
           \<lparr> registry = [(''s'', loggedStream n
                [(''a'', other),
                 (''d'', \<lparr> sub_id = ''d'',
                           res = \<lparr> frames = sentChunks (Suc k), writableEnded = False,
                                   writeThrows = False \<rparr>,
                           joinedAt = t, isReplaying = True, replayTask = AtChunkDelay k n \<rparr>)]
                stat err)],
             upstreamCalls = cs, settledCalls = ss, cleanupTimers = ct, errorTimers = et \<rparr>
         = Some
           \<lparr> registry = [(''s'', loggedStream n
                [(''a'', other),
                 (''d'', \<lparr> sub_id = ''d'',
                           res = \<lparr> frames = sentChunks (Suc (Suc k)), writableEnded = False,
                                   writeThrows = False \<rparr>,
                           joinedAt = t, isReplaying = True,
                           replayTask = AtChunkDelay (Suc k) n \<rparr>)]
                stat err)],
             upstreamCalls = cs, settledCalls = ss, cleanupTimers = ct, errorTimers = et \<rparr>"
proof -
  let ?conn = "\<lparr> frames = sentChunks (Suc k), writableEnded = False, writeThrows = False \<rparr>"
  let ?d = "\<lparr> sub_id = ''d'', res = ?conn, joinedAt = t, isReplaying = True,
              replayTask = AtChunkDelay k n \<rparr>"
  let ?stream = "loggedStream n [(''a'', other), (''d'', ?d)] stat err"
  have "replayLoop ?stream ?conn (Suc k) n =
          (res_write ?conn (ChunkFrame (chunk_text (chunks ?stream ! (Suc k)))),
           Suspended (AtChunkDelay (Suc k) n))"
    using k by (intro replayLoop_next) simp_all
  with k have loop: "replayLoop ?stream ?conn (Suc k) n =
      (\<lparr> frames = sentChunks (Suc (Suc k)), writableEnded = False, writeThrows = False \<rparr>,
       Suspended (AtChunkDelay (Suc k) n))"
    by (simp add: res_write_def sentChunks_Suc)
  show ?thesis
    by (simp add: resumeReplay_def runReplay_def loop setSubscriber_def)
qed

lemma replay_continued:
  assumes "k + 1 < n"
  shows "run (replicate k (Resume ''s'' ''d''))
           \<lparr> registry = [(''s'', loggedStream n
                [(''a'', other),
                 (''d'', \<lparr> sub_id = ''d'',
                           res = \<lparr> frames = sentChunks (Suc 0), writableEnded = False,
                                   writeThrows = False \<rparr>,
                           joinedAt = t, isReplaying = True, replayTask = AtChunkDelay 0 n \<rparr>)]
                stat err)],
             upstreamCalls = cs, settledCalls = ss, cleanupTimers = ct, errorTimers = et \<rparr>
         = Some
           \<lparr> registry = [(''s'', loggedStream n
                [(''a'', other),
                 (''d'', \<lparr> sub_id = ''d'',
                           res = \<lparr> frames = sentChunks (Suc k), writableEnded = False,
                                   writeThrows = False \<rparr>,
                           joinedAt = t, isReplaying = True, replayTask = AtChunkDelay k n \<rparr>)]
                stat err)],
             upstreamCalls = cs, settledCalls = ss, cleanupTimers = ct, errorTimers = et \<rparr>"
  using assms
proof (induction k)
  case 0
  show ?case by simp
next
  case (Suc k)
  then have before: "run (replicate k (Resume ''s'' ''d''))
           \<lparr> registry = [(''s'', loggedStream n
                [(''a'', other),
                 (''d'', \<lparr> sub_id = ''d'',
                           res = \<lparr> frames = sentChunks (Suc 0), writableEnded = False,
                                   writeThrows = False \<rparr>,
                           joinedAt = t, isReplaying = True, replayTask = AtChunkDelay 0 n \<rparr>)]
                stat err)],
             upstreamCalls = cs, settledCalls = ss, cleanupTimers = ct, errorTimers = et \<rparr>
         = Some
           \<lparr> registry = [(''s'', loggedStream n
                [(''a'', other),
                 (''d'', \<lparr> sub_id = ''d'',
                           res = \<lparr> frames = sentChunks (Suc k), writableEnded = False,
                                   writeThrows = False \<rparr>,
                           joinedAt = t, isReplaying = True, replayTask = AtChunkDelay k n \<rparr>)]
                stat err)],
             upstreamCalls = cs, settledCalls = ss, cleanupTimers = ct, errorTimers = et \<rparr>"
    by simp
  from Suc.prems have k: "k + 2 < n" by simp
  have "replicate (Suc k) (Resume ''s'' ''d'') = replicate k (Resume ''s'' ''d'') @ [Resume ''s'' ''d'']"
    by (simp add: replicate_append_same)
  then show ?case
    by (simp only: run_append before option.case run.simps replay_continues [OF k])
qed

lemma replayDelays_loggedStream:
  "replayDelays (loggedStream n subs stat err) = replicate (n - 1) 30"
proof -
  have "replayDelayMs (chunks (loggedStream n subs stat err) ! i)
          (chunks (loggedStream n subs stat err) ! Suc i) = 30"
    if "i < n - 1" for i
    using that by (simp add: loggedStream_def replayDelayMs_def)
  then have "replayDelays (loggedStream n subs stat err) = map (\<lambda>i. 30) [0..<n - 1]"
    by (simp add: replayDelays_def)
  then show ?thesis by (simp add: map_replicate_const)
qed

text \<open>
  C1, evaluated where it fails. In \<^const>\<open>replayCutShort\<close> the subscriber \<^verbatim>\<open>''d''\<close> joins the
  stream while it is active, with 36 chunks logged, and the upstream call throws while
  the replay runs. The delays of the replay are of 30 milliseconds, so that one second
  after the error the subscriber has been sent 34 of the 36 chunks and no other frame,
  is in replay mode and has its response open. The timer of \<^verbatim>\<open>errorStream\<close> then removes
  the stream with its subscribers, and the next continuation of the replay finds no
  stream: the last two chunks and the frame of the error are never written, and the
  response is never ended.
\<close>

theorem replay_cut_by_error_timer:
  "run (replayCutShort @ [ErrorCleanupFires ''s'', Resume ''s'' ''d'']) noStreams \<noteq> None \<and>
   streamStatus (outcome replayCutShort) ''s'' = Some StreamError \<and>
   loggedChunks (outcome replayCutShort) ''s'' = Some (map chunkName [0..<36]) \<and>
   map_option replayDelays (map_of (registry (outcome replayCutShort)) ''s'')
     = Some (replicate 35 30) \<and>
   subscriberAt (registry (outcome replayCutShort)) ''s'' ''d'' =
     Some \<lparr> sub_id = ''d'',
            res = \<lparr> frames = sentChunks 34, writableEnded = False, writeThrows = False \<rparr>,
            joinedAt = 3650, isReplaying = True, replayTask = AtChunkDelay 33 36 \<rparr> \<and>
   registry (outcome (replayCutShort @ [ErrorCleanupFires ''s'', Resume ''s'' ''d''])) = []"
proof -
  let ?sc = "\<lparr> call_cacheKey = ''s'', call_params = someParams \<rparr>"
  let ?msg = "''Claude API error: overloaded''"
  let ?a = "\<lambda>n. \<lparr> sub_id = ''a'',
                  res = \<lparr> frames = sentChunks n, writableEnded = False, writeThrows = False \<rparr>,
                  joinedAt = 0, isReplaying = False, replayTask = NoReplay \<rparr>"
  let ?ended = "\<lparr> sub_id = ''a'',
                  res = \<lparr> frames = sentChunks 36 @ [ErrorFrame (errorMessageFor ?msg)],
                          writableEnded = True, writeThrows = False \<rparr>,
                  joinedAt = 0, isReplaying = False, replayTask = NoReplay \<rparr>"
  let ?d = "\<lambda>k. \<lparr> sub_id = ''d'',
                  res = \<lparr> frames = sentChunks (Suc k), writableEnded = False,
                          writeThrows = False \<rparr>,
                  joinedAt = 3650, isReplaying = True, replayTask = AtChunkDelay k 36 \<rparr>"
  let ?live = "\<lambda>n. \<lparr> registry = [(''s'', loggedStream n [(''a'', ?a n)] StreamActive None)],
       upstreamCalls = [?sc], settledCalls = [], cleanupTimers = [], errorTimers = [] \<rparr>"
  let ?joined = "\<lparr> registry = [(''s'', loggedStream 36 [(''a'', ?a 36), (''d'', ?d 0)]
                                   StreamActive None)],
       upstreamCalls = [?sc], settledCalls = [], cleanupTimers = [], errorTimers = [] \<rparr>"
  let ?failed = "\<lambda>k. \<lparr> registry = [(''s'', loggedStream 36 [(''a'', ?ended), (''d'', ?d k)]
                                   StreamError (Some ?msg))],
       upstreamCalls = [?sc], settledCalls = [0], cleanupTimers = [],
       errorTimers = [''s''] \<rparr>"
  let ?gone = "\<lparr> registry = [], upstreamCalls = [?sc], settledCalls = [0],
       cleanupTimers = [], errorTimers = [] \<rparr>"
  have "map_of (registry noStreams) ''s'' = None"
    by (simp add: noStreams_def)
  from request_new [OF this, of someParams "''a''" 0]
  have created: "step (Request ''s'' someParams ''a'' 0) noStreams = Some (?live 0)"
    by (simp add: noStreams_def MAX_ACTIVE_STREAMS_def loggedStream_def sentChunks_def
        freshConnection_def del: step.simps)
  have published: "run (map (\<lambda>i. Chunk 0 (chunkName i) (100 * (int i + 1))) [0..<36]) (?live 0)
                     = Some (?live 36)"
    by (rule chunks_published)
  have "replayLoop
          (loggedStream 36
             [(''a'', ?a 36),
              (''d'', \<lparr> sub_id = ''d'', res = freshConnection, joinedAt = 3650,
                        isReplaying = True, replayTask = NoReplay \<rparr>)] StreamActive None)
          freshConnection 0 36
        = (res_write freshConnection
             (ChunkFrame (chunk_text (chunks (loggedStream 36
                [(''a'', ?a 36),
                 (''d'', \<lparr> sub_id = ''d'', res = freshConnection, joinedAt = 3650,
                           isReplaying = True, replayTask = NoReplay \<rparr>)] StreamActive None) ! 0))),
           Suspended (AtChunkDelay 0 36))"
    by (intro replayLoop_next) (simp_all add: freshConnection_def)
  then have first: "replayLoop
          (loggedStream 36
             [(''a'', ?a 36),
              (''d'', \<lparr> sub_id = ''d'', res = freshConnection, joinedAt = 3650,
                        isReplaying = True, replayTask = NoReplay \<rparr>)] StreamActive None)
          freshConnection 0 36
        = (\<lparr> frames = sentChunks (Suc 0), writableEnded = False, writeThrows = False \<rparr>,
           Suspended (AtChunkDelay 0 36))"
    by (simp add: res_write_def freshConnection_def sentChunks_def)
  have joined: "step (Request ''s'' someParams ''d'' 3650) (?live 36) = Some ?joined"
    by (simp add: subscriberAt_def joinOrCreateStream_def getStream_def subscribe_def
        setSubscriber_def replayChunksWithDelay_def runReplay_def first Let_def)
  have failed: "step (Throws 0 ?msg) ?joined = Some (?failed 0)"
    by (simp add: inFlight_def errorStream_def broadcast_def deadSubscribers_def
        res_write_def res_end_def loggedStream_def Let_def)
  have replayed: "run (replicate 33 (Resume ''s'' ''d'')) (?failed 0) = Some (?failed 33)"
    by (rule replay_continued) simp
  have cut: "run replayCutShort noStreams = Some (?failed 33)"
    by (simp only: replayCutShort_def run_append created published replayed option.case
        run.simps joined failed)
  have fired: "step (ErrorCleanupFires ''s'') (?failed 33) = Some ?gone"
    by (simp add: errorCleanupTimer_def map_delete_def)
  have resumed: "step (Resume ''s'' ''d'') ?gone = Some ?gone"
    by (simp add: resumeReplay_def)
  have after: "run (replayCutShort @ [ErrorCleanupFires ''s'', Resume ''s'' ''d'']) noStreams
                 = Some ?gone"
    by (simp only: run_append cut option.case run.simps fired resumed)
  have "map chunk_text (chunks (loggedStream 36 subs stat err)) = map chunkName [0..<36]"
    for subs stat err
    by (simp add: loggedStream_def comp_def)
  then show ?thesis
    by (simp add: outcome_def cut after streamStatus_def loggedChunks_def subscriberAt_def
        replayDelays_loggedStream)
qed

end
